theory Spec2Isabelle
  imports Main "HOL-Library.AList" "HOL-Library.Char_ord" "HOL-Library.List_Lexorder"
begin

section \<open>BioFlow: sequences, k-mer counting and pairwise alignment\<close>

text \<open>
  A shallow embedding of \<^verbatim>\<open>bioflow/sequence.py\<close>, \<^verbatim>\<open>bioflow/kmer.py\<close> and
  \<^verbatim>\<open>bioflow/alignment.py\<close>. Python integers are \<open>int\<close>; list and string positions that
  the code keeps non-negative are \<open>nat\<close>. A raised exception is the \<open>Inl\<close> branch of a sum.
\<close>

subsection \<open>Python text\<close>

text \<open>
  A Python \<^verbatim>\<open>str\<close> is modelled as a list of code points below 256, one \<open>char\<close> each, so
  \<open>length\<close> is Python's \<^verbatim>\<open>len\<close>. \<open>upper\<close> is \<^verbatim>\<open>str.upper\<close> on that range: the ASCII and
  Latin-1 lower-case letters move down by 32, and U+00DF (sharp s) becomes the two letters
  \<^verbatim>\<open>SS\<close>. The upper-case forms of U+00B5 and U+00FF lie beyond 255; the model leaves these
  two code points as they are (in Python they also map to one code point each).
\<close>

definition upper_char :: "char \<Rightarrow> string" where
  "upper_char c =
     (let n = (of_char c :: nat) in
      if 97 \<le> n \<and> n \<le> 122 then [char_of (n - 32)]
      else if n = 223 then ''SS''
      else if 224 \<le> n \<and> n \<le> 254 \<and> n \<noteq> 247 then [char_of (n - 32)]
      else [c])"

definition upper :: "string \<Rightarrow> string" where
  "upper s = concat (map upper_char s)"

text \<open>
  \<^verbatim>\<open>xs[a:b]\<close> for arbitrary integer bounds: a negative bound counts from the end, and
  both are clipped to the list.
\<close>

definition py_slice :: "'a list \<Rightarrow> int \<Rightarrow> int \<Rightarrow> 'a list" where
  "py_slice xs a b =
     (let n = int (length xs);
          a' = (if a < 0 then max (n + a) 0 else min a n);
          b' = (if b < 0 then max (n + b) 0 else min b n)
      in take (nat (b' - a')) (drop (nat a') xs))"

text \<open>\<^verbatim>\<open>range(n)\<close> for an integer \<open>n\<close>: empty when \<open>n \<le> 0\<close>.\<close>

definition py_range :: "int \<Rightarrow> nat list" where
  "py_range n = [0 ..< nat n]"

subsection \<open>Errors\<close>

text \<open>
  \<^verbatim>\<open>ValueError\<close> carries its message; where the source formats numbers into the message
  only the fixed part of the text is kept.
\<close>

datatype error =
    EmptySequenceError
  | InvalidBaseError nat char
  | ValueError string

subsection \<open>sequence.py\<close>

datatype SequenceType = DNA | RNA | UNKNOWN

definition VALID_DNA_BASES :: "char set" where
  "VALID_DNA_BASES = {CHR ''A'', CHR ''C'', CHR ''G'', CHR ''T'', CHR ''N''}"

definition VALID_RNA_BASES :: "char set" where
  "VALID_RNA_BASES = {CHR ''A'', CHR ''C'', CHR ''G'', CHR ''U'', CHR ''N''}"

text \<open>The field \<^verbatim>\<open>id\<close> is named \<open>seq_id\<close>, and \<^verbatim>\<open>_validated\<close> is \<open>validated\<close>.\<close>

record Sequence =
  bases :: string
  seq_id :: "string option"
  description :: "string option"
  seq_type :: SequenceType
  validated :: bool

definition valid_bases_of :: "SequenceType \<Rightarrow> char set" where
  "valid_bases_of t = (if t \<noteq> RNA then VALID_DNA_BASES else VALID_RNA_BASES)"

text \<open>\<^verbatim>\<open>_validate\<close>: the first base outside the alphabet raises, with its position.\<close>

fun validate_from :: "char set \<Rightarrow> nat \<Rightarrow> string \<Rightarrow> error + unit" where
  "validate_from vb i [] = Inr ()"
| "validate_from vb i (b # bs) =
     (if b \<notin> vb then Inl (InvalidBaseError i b) else validate_from vb (Suc i) bs)"

definition Sequence_validate :: "Sequence \<Rightarrow> error + unit" where
  "Sequence_validate s = validate_from (valid_bases_of (seq_type s)) 0 (bases s)"

text \<open>
  The dataclass constructor followed by \<^verbatim>\<open>__post_init__\<close>: upper-case, refuse the empty
  string, validate unless \<^verbatim>\<open>_validated\<close> was passed as true.
\<close>

definition Sequence_init ::
  "string \<Rightarrow> string option \<Rightarrow> string option \<Rightarrow> SequenceType \<Rightarrow> bool \<Rightarrow> error + Sequence" where
  "Sequence_init b i d t v =
     (let s = \<lparr>bases = upper b, seq_id = i, description = d, seq_type = t, validated = v\<rparr> in
      if length (bases s) = 0 then Inl EmptySequenceError
      else if \<not> validated s then
        (case Sequence_validate s of
           Inl e \<Rightarrow> Inl e
         | Inr _ \<Rightarrow> Inr (s\<lparr>validated := True\<rparr>))
      else Inr s)"

definition Sequence_new :: "string \<Rightarrow> error + Sequence" where
  "Sequence_new b = Sequence_init b None None DNA False"

definition is_valid :: "Sequence \<Rightarrow> bool" where
  "is_valid s = (\<forall>b \<in> set (bases s). b \<in> valid_bases_of (seq_type s))"

definition Sequence_len :: "Sequence \<Rightarrow> nat" where
  "Sequence_len s = length (bases s)"

text \<open>\<^verbatim>\<open>comp_map.get(c, 'N')\<close>.\<close>

definition complement_base :: "char \<Rightarrow> char" where
  "complement_base c =
     (case map_of [(CHR ''A'', CHR ''T''), (CHR ''T'', CHR ''A''), (CHR ''C'', CHR ''G''),
                   (CHR ''G'', CHR ''C''), (CHR ''N'', CHR ''N'')] c of
        Some d \<Rightarrow> d
      | None \<Rightarrow> CHR ''N'')"

definition complement :: "Sequence \<Rightarrow> error + Sequence" where
  "complement s =
     (if seq_type s \<noteq> DNA then Inl (ValueError ''Complement only available for DNA sequences'')
      else Sequence_init (map complement_base (bases s)) (seq_id s) (description s)
             (seq_type s) True)"

definition reverse :: "Sequence \<Rightarrow> error + Sequence" where
  "reverse s = Sequence_init (rev (bases s)) (seq_id s) (description s) (seq_type s) True"

definition reverse_complement :: "Sequence \<Rightarrow> error + Sequence" where
  "reverse_complement s =
     (if seq_type s \<noteq> DNA
      then Inl (ValueError ''Reverse complement only available for DNA sequences'')
      else (case complement s of Inl e \<Rightarrow> Inl e | Inr c \<Rightarrow> reverse c))"

text \<open>\<^verbatim>\<open>bases.replace('T', 'U')\<close> replaces every occurrence of the one-letter pattern.\<close>

definition transcribe :: "Sequence \<Rightarrow> error + Sequence" where
  "transcribe s =
     (if seq_type s \<noteq> DNA then Inl (ValueError ''Can only transcribe DNA'')
      else Sequence_init (map (\<lambda>c. if c = CHR ''T'' then CHR ''U'' else c) (bases s))
             (seq_id s) (description s) RNA True)"

subsection \<open>kmer.py\<close>



text \<open>The field \<^verbatim>\<open>k\<close> of a k-mer is \<open>kmer_k\<close>; it is set from the length.\<close>

record KMer =
  sequence :: string
  kmer_k :: nat




text \<open>
  The dictionary \<^verbatim>\<open>counts\<close> is an association list in insertion order: assigning to a
  present key keeps its place, a new key goes to the end (\<open>AList.update\<close>). The field \<^verbatim>\<open>k\<close>
  of a counter is \<open>counter_k\<close>.
\<close>

record KMerCounter =
  counter_k :: int
  counts :: "(string \<times> int) list"
  total_kmers :: int

definition dict_get :: "('a \<times> 'b) list \<Rightarrow> 'a \<Rightarrow> 'b \<Rightarrow> 'b" where
  "dict_get d key dflt = (case map_of d key of Some v \<Rightarrow> v | None \<Rightarrow> dflt)"

definition KMerCounter_init :: "int \<Rightarrow> (string \<times> int) list \<Rightarrow> int \<Rightarrow> error + KMerCounter" where
  "KMerCounter_init kk cs t =
     (if kk \<le> 0 then Inl (ValueError ''K must be positive'')
      else Inr \<lparr>counter_k = kk, counts = cs, total_kmers = t\<rparr>)"

definition KMerCounter_new :: "int \<Rightarrow> error + KMerCounter" where
  "KMerCounter_new kk = KMerCounter_init kk [] 0"

definition KMerCounter_add :: "KMerCounter \<Rightarrow> string \<Rightarrow> int \<Rightarrow> error + KMerCounter" where
  "KMerCounter_add c kmer count =
     (if int (length kmer) \<noteq> counter_k c then Inl (ValueError ''K-mer length does not match k'')
      else if count \<le> 0 then Inl (ValueError ''Count must be positive'')
      else
        let kmer = upper kmer in
        Inr (c\<lparr>counts := AList.update kmer (dict_get (counts c) kmer 0 + count) (counts c),
               total_kmers := total_kmers c + count\<rparr>))"

text \<open>The loop of \<^verbatim>\<open>count_kmers\<close> over the window starts; an exception of \<^verbatim>\<open>add\<close> ends it.\<close>

fun count_kmers_loop :: "KMerCounter \<Rightarrow> string \<Rightarrow> nat list \<Rightarrow> error + KMerCounter" where
  "count_kmers_loop c sq [] = Inr c"
| "count_kmers_loop c sq (i # is) =
     (let kmer = py_slice sq (int i) (int i + counter_k c) in
      if CHR ''N'' \<notin> set kmer then
        (case KMerCounter_add c kmer 1 of
           Inl e \<Rightarrow> Inl e
         | Inr c' \<Rightarrow> count_kmers_loop c' sq is)
      else count_kmers_loop c sq is)"

definition KMerCounter_count_kmers :: "KMerCounter \<Rightarrow> string \<Rightarrow> error + KMerCounter" where
  "KMerCounter_count_kmers c sq0 =
     (let sq = upper sq0 in
      count_kmers_loop c sq (py_range (int (length sq) - counter_k c + 1)))"

definition count_from_sequence :: "KMerCounter \<Rightarrow> Sequence \<Rightarrow> error + KMerCounter" where
  "count_from_sequence c s = KMerCounter_count_kmers c (bases s)"

text \<open>
  \<^verbatim>\<open>merge\<close> runs over the entries of the other counter and updates this one. Each key is
  read once, before anything is written under it, so the fold over the entries as they
  were at the start also describes merging a counter into itself.
\<close>

definition merge_step :: "string \<times> int \<Rightarrow> KMerCounter \<Rightarrow> KMerCounter" where
  "merge_step kc c =
     (case kc of (kmer, count) \<Rightarrow>
        c\<lparr>counts := AList.update kmer (dict_get (counts c) kmer 0 + count) (counts c),
          total_kmers := total_kmers c + count\<rparr>)"

definition merge :: "KMerCounter \<Rightarrow> KMerCounter \<Rightarrow> error + KMerCounter" where
  "merge self other =
     (if counter_k self \<noteq> counter_k other then Inl (ValueError ''K values must match'')
      else Inr (fold merge_step (counts other) self))"

text \<open>The module-level function \<^verbatim>\<open>count_kmers(sequence, k)\<close>.\<close>

definition count_kmers :: "Sequence \<Rightarrow> int \<Rightarrow> error + KMerCounter" where
  "count_kmers s kk =
     (if kk \<le> 0 then Inl (ValueError ''K must be positive'')
      else if kk > int (Sequence_len s) then Inl (ValueError ''K cannot exceed sequence length'')
      else
        (case KMerCounter_new kk of
           Inl e \<Rightarrow> Inl e
         | Inr counter \<Rightarrow> count_from_sequence counter s))"



text \<open>
  The invariant of a counter, as the class docstring and the specification give it: keys of
  length \<open>k\<close>, positive counts, and a total that is the sum of the counts. Keys of a
  dictionary are distinct.
\<close>

definition counter_inv :: "KMerCounter \<Rightarrow> bool" where
  "counter_inv c \<longleftrightarrow>
     distinct (map fst (counts c)) \<and>
     (\<forall>(kmer, n) \<in> set (counts c). int (length kmer) = counter_k c \<and> 0 < n) \<and>
     total_kmers c = sum_list (map snd (counts c))"

text \<open>The windows of width \<open>kk\<close> of a string, by start position, and those without \<^verbatim>\<open>N\<close>.\<close>

definition windows :: "string \<Rightarrow> nat \<Rightarrow> string list" where
  "windows sq kk = map (\<lambda>i. take kk (drop i sq)) [0 ..< length sq + 1 - kk]"

definition windows_without_N :: "string \<Rightarrow> nat \<Rightarrow> string list" where
  "windows_without_N sq kk = filter (\<lambda>w. CHR ''N'' \<notin> set w) (windows sq kk)"

subsection \<open>alignment.py: scoring and results\<close>

datatype AlignDirection = DIAGONAL | UP | LEFT | STOP

datatype AlignmentType = GLOBAL | LOCAL | SEMI_GLOBAL

record ScoringMatrix =
  match_score :: int
  mismatch_penalty :: int
  gap_open_penalty :: int
  gap_extend_penalty :: int

definition ScoringMatrix_init :: "int \<Rightarrow> int \<Rightarrow> int \<Rightarrow> int \<Rightarrow> error + ScoringMatrix" where
  "ScoringMatrix_init ms mp go ge =
     (if ms \<le> 0 then Inl (ValueError ''Match score must be positive'')
      else if mp > 0 then Inl (ValueError ''Mismatch penalty should be <= 0'')
      else if go > 0 then Inl (ValueError ''Gap open penalty should be <= 0'')
      else if ge > 0 then Inl (ValueError ''Gap extend penalty should be <= 0'')
      else Inr \<lparr>match_score = ms, mismatch_penalty = mp, gap_open_penalty = go,
                gap_extend_penalty = ge\<rparr>)"

text \<open>A scoring matrix that the constructor accepts.\<close>

definition scoring_ok :: "ScoringMatrix \<Rightarrow> bool" where
  "scoring_ok sc \<longleftrightarrow>
     0 < match_score sc \<and> mismatch_penalty sc \<le> 0 \<and> gap_open_penalty sc \<le> 0 \<and>
     gap_extend_penalty sc \<le> 0"

text \<open>\<^verbatim>\<open>ScoringMatrix.default_dna()\<close>; its values pass the constructor's checks.\<close>

definition default_dna :: ScoringMatrix where
  "default_dna = \<lparr>match_score = 2, mismatch_penalty = - 1, gap_open_penalty = - 2,
                   gap_extend_penalty = - 1\<rparr>"

definition scoring_or_default :: "ScoringMatrix option \<Rightarrow> ScoringMatrix" where
  "scoring_or_default scoring = (case scoring of None \<Rightarrow> default_dna | Some sc \<Rightarrow> sc)"

definition ScoringMatrix_score :: "ScoringMatrix \<Rightarrow> char \<Rightarrow> char \<Rightarrow> int" where
  "ScoringMatrix_score sc base1 base2 =
     (if base1 = base2 then match_score sc else mismatch_penalty sc)"

definition gap_penalty :: "ScoringMatrix \<Rightarrow> int" where
  "gap_penalty sc = gap_open_penalty sc"

text \<open>
  An alignment result. The derived field \<^verbatim>\<open>identity\<close> is a floating-point quotient and is
  left out; computing it never fails.
\<close>

record Alignment =
  aligned_seq1 :: string
  aligned_seq2 :: string
  score :: int
  start1 :: nat
  end1 :: nat
  start2 :: nat
  end2 :: nat
  alignment_type :: AlignmentType

definition Alignment_init ::
  "string \<Rightarrow> string \<Rightarrow> int \<Rightarrow> nat \<Rightarrow> nat \<Rightarrow> nat \<Rightarrow> nat \<Rightarrow> AlignmentType \<Rightarrow> error + Alignment" where
  "Alignment_init a1 a2 sc b1 e1 b2 e2 ty =
     (if length a1 \<noteq> length a2 then Inl (ValueError ''Aligned sequences must have equal length'')
      else Inr \<lparr>aligned_seq1 = a1, aligned_seq2 = a2, score = sc, start1 = b1, end1 = e1,
                start2 = b2, end2 = e2, alignment_type = ty\<rparr>)"

definition Alignment_new :: "string \<Rightarrow> string \<Rightarrow> int \<Rightarrow> AlignmentType \<Rightarrow> error + Alignment" where
  "Alignment_new a1 a2 sc ty = Alignment_init a1 a2 sc 0 (length a1) 0 (length a2) ty"

definition with_positions ::
  "string \<Rightarrow> string \<Rightarrow> int \<Rightarrow> nat \<Rightarrow> nat \<Rightarrow> nat \<Rightarrow> nat \<Rightarrow> AlignmentType \<Rightarrow> error + Alignment" where
  "with_positions a1 a2 sc b1 e1 b2 e2 ty = Alignment_init a1 a2 sc b1 e1 b2 e2 ty"

definition gaps_seq1 :: "Alignment \<Rightarrow> nat" where
  "gaps_seq1 a = count_list (aligned_seq1 a) (CHR ''-'')"

definition gaps_seq2 :: "Alignment \<Rightarrow> nat" where
  "gaps_seq2 a = count_list (aligned_seq2 a) (CHR ''-'')"

definition total_gaps :: "Alignment \<Rightarrow> nat" where
  "total_gaps a = gaps_seq1 a + gaps_seq2 a"

subsection \<open>alignment.py: Smith-Waterman\<close>

text \<open>
  The state of the fill loops: the score matrix \<^verbatim>\<open>H\<close>, the traceback matrix, and the running
  maximum with its position. Both matrices are lists of rows, updated in place. All indices
  the loops use lie inside the matrices and the strings.
\<close>

record fill_state =
  H_matrix :: "int list list"
  traceback :: "AlignDirection list list"
  max_score :: int
  max_i :: nat
  max_j :: nat

text \<open>The three sequential tests of one cell, starting from \<open>(best, direction)\<close>.\<close>

definition take_if_greater :: "int \<Rightarrow> AlignDirection \<Rightarrow> int \<times> AlignDirection \<Rightarrow> int \<times> AlignDirection" where
  "take_if_greater cand d bd = (if cand > fst bd then (cand, d) else bd)"

definition sw_choose :: "int \<Rightarrow> int \<Rightarrow> int \<Rightarrow> int \<times> AlignDirection" where
  "sw_choose diag up left =
     take_if_greater left LEFT (take_if_greater up UP (take_if_greater diag DIAGONAL (0, STOP)))"

text \<open>
  What the cell \<open>(i, j)\<close> gets from a score matrix \<open>H\<close>: the three candidates read from
  the neighbours, and the choice among them.
\<close>

definition sw_best ::
  "ScoringMatrix \<Rightarrow> string \<Rightarrow> string \<Rightarrow> nat \<Rightarrow> nat \<Rightarrow> int list list \<Rightarrow> int \<times> AlignDirection" where
  "sw_best sc s1 s2 i j H =
     sw_choose (H ! (i - 1) ! (j - 1) + ScoringMatrix_score sc (s1 ! (i - 1)) (s2 ! (j - 1)))
       (H ! (i - 1) ! j + gap_penalty sc) (H ! i ! (j - 1) + gap_penalty sc)"

definition sw_cell :: "ScoringMatrix \<Rightarrow> string \<Rightarrow> string \<Rightarrow> nat \<Rightarrow> nat \<Rightarrow> fill_state \<Rightarrow> fill_state" where
  "sw_cell sc s1 s2 i j st =
     (let ms = ScoringMatrix_score sc (s1 ! (i - 1)) (s2 ! (j - 1));
          diag = H_matrix st ! (i - 1) ! (j - 1) + ms;
          up = H_matrix st ! (i - 1) ! j + gap_penalty sc;
          left = H_matrix st ! i ! (j - 1) + gap_penalty sc;
          (best, direction) = sw_choose diag up left;
          st = st\<lparr>H_matrix := (H_matrix st)[i := (H_matrix st ! i)[j := best]],
                  traceback := (traceback st)[i := (traceback st ! i)[j := direction]]\<rparr>
      in if best > max_score st then st\<lparr>max_score := best, max_i := i, max_j := j\<rparr> else st)"

definition sw_row :: "ScoringMatrix \<Rightarrow> string \<Rightarrow> string \<Rightarrow> nat \<Rightarrow> nat \<Rightarrow> fill_state \<Rightarrow> fill_state" where
  "sw_row sc s1 s2 n i st = fold (sw_cell sc s1 s2 i) [1 ..< n + 1] st"

definition sw_init :: "nat \<Rightarrow> nat \<Rightarrow> fill_state" where
  "sw_init m n =
     \<lparr>H_matrix = replicate (m + 1) (replicate (n + 1) 0),
      traceback = replicate (m + 1) (replicate (n + 1) STOP),
      max_score = 0, max_i = 0, max_j = 0\<rparr>"

definition sw_fill :: "ScoringMatrix \<Rightarrow> string \<Rightarrow> string \<Rightarrow> fill_state" where
  "sw_fill sc s1 s2 =
     (let m = length s1; n = length s2 in
      fold (sw_row sc s1 s2 n) [1 ..< m + 1] (sw_init m n))"

text \<open>
  \<^verbatim>\<open>_traceback_local\<close>: the \<^verbatim>\<open>while i > 0 and j > 0\<close> loop, with the two strings built by
  prepending. Every branch that continues lowers \<open>i + j\<close>.
\<close>

function traceback_local_loop ::
  "string \<Rightarrow> string \<Rightarrow> AlignDirection list list \<Rightarrow> nat \<Rightarrow> nat \<Rightarrow> string \<Rightarrow> string
     \<Rightarrow> string \<times> string \<times> nat \<times> nat" where
  "traceback_local_loop seq1 seq2 tb i j aligned1 aligned2 =
     (if i > 0 \<and> j > 0 then
        (case tb ! i ! j of
           STOP \<Rightarrow> (aligned1, aligned2, i, j)
         | DIAGONAL \<Rightarrow>
             traceback_local_loop seq1 seq2 tb (i - 1) (j - 1)
               (seq1 ! (i - 1) # aligned1) (seq2 ! (j - 1) # aligned2)
         | UP \<Rightarrow>
             traceback_local_loop seq1 seq2 tb (i - 1) j
               (seq1 ! (i - 1) # aligned1) (CHR ''-'' # aligned2)
         | LEFT \<Rightarrow>
             traceback_local_loop seq1 seq2 tb i (j - 1)
               (CHR ''-'' # aligned1) (seq2 ! (j - 1) # aligned2))
      else (aligned1, aligned2, i, j))"
  by pat_completeness auto
termination
  by (relation "measure (\<lambda>(seq1, seq2, tb, i, j, a1, a2). i + j)") auto

declare traceback_local_loop.simps [simp del]

definition traceback_local ::
  "string \<Rightarrow> string \<Rightarrow> AlignDirection list list \<Rightarrow> nat \<Rightarrow> nat \<Rightarrow> string \<times> string \<times> nat \<times> nat" where
  "traceback_local seq1 seq2 tb start_i start_j =
     traceback_local_loop seq1 seq2 tb start_i start_j [] []"

definition smith_waterman ::
  "Sequence \<Rightarrow> Sequence \<Rightarrow> ScoringMatrix option \<Rightarrow> error + Alignment" where
  "smith_waterman seq1 seq2 scoring =
     (let sc = scoring_or_default scoring in
      if Sequence_len seq1 = 0 \<or> Sequence_len seq2 = 0
      then Inl (ValueError ''Sequences must be non-empty'')
      else
        let s1 = bases seq1; s2 = bases seq2;
            st = sw_fill sc s1 s2;
            (aligned1, aligned2, b1, b2) =
              traceback_local s1 s2 (traceback st) (max_i st) (max_j st)
        in with_positions aligned1 aligned2 (max_score st) b1 (max_i st) b2 (max_j st) LOCAL)"

subsection \<open>alignment.py: the score-only variant\<close>

text \<open>The state is \<open>(prev_row, curr_row, max_score)\<close>.\<close>

definition so_cell ::
  "ScoringMatrix \<Rightarrow> string \<Rightarrow> string \<Rightarrow> nat \<Rightarrow> nat \<Rightarrow> int list \<times> int list \<times> int
     \<Rightarrow> int list \<times> int list \<times> int" where
  "so_cell sc s1 s2 i j st =
     (case st of (prev_row, curr_row, mx) \<Rightarrow>
        let ms = ScoringMatrix_score sc (s1 ! (i - 1)) (s2 ! (j - 1));
            diag = prev_row ! (j - 1) + ms;
            up = prev_row ! j + gap_penalty sc;
            left = curr_row ! (j - 1) + gap_penalty sc;
            best = max 0 (max diag (max up left))
        in (prev_row, curr_row[j := best], if best > mx then best else mx))"

text \<open>One outer iteration: a fresh current row, the inner loop, then the swap of the rows.\<close>

definition so_row ::
  "ScoringMatrix \<Rightarrow> string \<Rightarrow> string \<Rightarrow> nat \<Rightarrow> nat \<Rightarrow> int list \<times> int list \<times> int
     \<Rightarrow> int list \<times> int list \<times> int" where
  "so_row sc s1 s2 n i st =
     (case st of (prev_row, curr_row, mx) \<Rightarrow>
        (case fold (so_cell sc s1 s2 i) [1 ..< n + 1] (prev_row, replicate (n + 1) 0, mx) of
           (prev_row, curr_row, mx) \<Rightarrow> (curr_row, prev_row, mx)))"

definition alignment_score_only ::
  "Sequence \<Rightarrow> Sequence \<Rightarrow> ScoringMatrix option \<Rightarrow> error + int" where
  "alignment_score_only seq1 seq2 scoring =
     (let sc = scoring_or_default scoring in
      if Sequence_len seq1 = 0 \<or> Sequence_len seq2 = 0
      then Inl (ValueError ''Sequences must be non-empty'')
      else
        let m = Sequence_len seq1; n = Sequence_len seq2;
            s1 = bases seq1; s2 = bases seq2
        in (case fold (so_row sc s1 s2 n) [1 ..< m + 1]
                   (replicate (n + 1) 0, replicate (n + 1) 0, 0) of
              (prev_row, curr_row, mx) \<Rightarrow> Inr mx))"

subsection \<open>alignment.py: Needleman-Wunsch\<close>

text \<open>The border loops over \<^verbatim>\<open>H\<close> and over the traceback matrix.\<close>

definition nw_init_H :: "ScoringMatrix \<Rightarrow> nat \<Rightarrow> nat \<Rightarrow> int list list" where
  "nw_init_H sc m n =
     (let H = replicate (m + 1) (replicate (n + 1) 0);
          H = fold (\<lambda>i H. H[i := (H ! i)[0 := int i * gap_penalty sc]]) [0 ..< m + 1] H
      in fold (\<lambda>j H. H[0 := (H ! 0)[j := int j * gap_penalty sc]]) [0 ..< n + 1] H)"

definition nw_init_tb :: "nat \<Rightarrow> nat \<Rightarrow> AlignDirection list list" where
  "nw_init_tb m n =
     (let tb = replicate (m + 1) (replicate (n + 1) STOP);
          tb = fold (\<lambda>i tb. tb[i := (tb ! i)[0 := UP]]) [1 ..< m + 1] tb
      in fold (\<lambda>j tb. tb[0 := (tb ! 0)[j := LEFT]]) [1 ..< n + 1] tb)"

definition nw_choose :: "int \<Rightarrow> int \<Rightarrow> int \<Rightarrow> int \<times> AlignDirection" where
  "nw_choose diag up left =
     take_if_greater left LEFT (take_if_greater up UP (diag, DIAGONAL))"

definition nw_cell ::
  "ScoringMatrix \<Rightarrow> string \<Rightarrow> string \<Rightarrow> nat \<Rightarrow> nat \<Rightarrow> int list list \<times> AlignDirection list list
     \<Rightarrow> int list list \<times> AlignDirection list list" where
  "nw_cell sc s1 s2 i j st =
     (case st of (H, tb) \<Rightarrow>
        let ms = ScoringMatrix_score sc (s1 ! (i - 1)) (s2 ! (j - 1));
            diag = H ! (i - 1) ! (j - 1) + ms;
            up = H ! (i - 1) ! j + gap_penalty sc;
            left = H ! i ! (j - 1) + gap_penalty sc;
            (best, direction) = nw_choose diag up left
        in (H[i := (H ! i)[j := best]], tb[i := (tb ! i)[j := direction]]))"

definition nw_row ::
  "ScoringMatrix \<Rightarrow> string \<Rightarrow> string \<Rightarrow> nat \<Rightarrow> nat \<Rightarrow> int list list \<times> AlignDirection list list
     \<Rightarrow> int list list \<times> AlignDirection list list" where
  "nw_row sc s1 s2 n i st = fold (nw_cell sc s1 s2 i) [1 ..< n + 1] st"

definition nw_fill ::
  "ScoringMatrix \<Rightarrow> string \<Rightarrow> string \<Rightarrow> int list list \<times> AlignDirection list list" where
  "nw_fill sc s1 s2 =
     (let m = length s1; n = length s2 in
      fold (nw_row sc s1 s2 n) [1 ..< m + 1] (nw_init_H sc m n, nw_init_tb m n))"

text \<open>
  \<^verbatim>\<open>_traceback_global\<close>: the \<^verbatim>\<open>while i > 0 or j > 0\<close> loop. On the borders it does not read the
  matrix; inside, a \<open>STOP\<close> cell takes the \<^verbatim>\<open>break\<close>.
\<close>

function traceback_global_loop ::
  "string \<Rightarrow> string \<Rightarrow> AlignDirection list list \<Rightarrow> nat \<Rightarrow> nat \<Rightarrow> string \<Rightarrow> string
     \<Rightarrow> string \<times> string" where
  "traceback_global_loop seq1 seq2 tb i j aligned1 aligned2 =
     (if i > 0 \<or> j > 0 then
        (if i = 0 then
           traceback_global_loop seq1 seq2 tb i (j - 1)
             (CHR ''-'' # aligned1) (seq2 ! (j - 1) # aligned2)
         else if j = 0 then
           traceback_global_loop seq1 seq2 tb (i - 1) j
             (seq1 ! (i - 1) # aligned1) (CHR ''-'' # aligned2)
         else
           (case tb ! i ! j of
              DIAGONAL \<Rightarrow>
                traceback_global_loop seq1 seq2 tb (i - 1) (j - 1)
                  (seq1 ! (i - 1) # aligned1) (seq2 ! (j - 1) # aligned2)
            | UP \<Rightarrow>
                traceback_global_loop seq1 seq2 tb (i - 1) j
                  (seq1 ! (i - 1) # aligned1) (CHR ''-'' # aligned2)
            | LEFT \<Rightarrow>
                traceback_global_loop seq1 seq2 tb i (j - 1)
                  (CHR ''-'' # aligned1) (seq2 ! (j - 1) # aligned2)
            | STOP \<Rightarrow> (aligned1, aligned2)))
      else (aligned1, aligned2))"
  by pat_completeness auto
termination
  by (relation "measure (\<lambda>(seq1, seq2, tb, i, j, a1, a2). i + j)") auto

declare traceback_global_loop.simps [simp del]

definition traceback_global ::
  "string \<Rightarrow> string \<Rightarrow> AlignDirection list list \<Rightarrow> nat \<Rightarrow> nat \<Rightarrow> string \<times> string" where
  "traceback_global seq1 seq2 tb m n = traceback_global_loop seq1 seq2 tb m n [] []"

definition needleman_wunsch ::
  "Sequence \<Rightarrow> Sequence \<Rightarrow> ScoringMatrix option \<Rightarrow> error + Alignment" where
  "needleman_wunsch seq1 seq2 scoring =
     (let sc = scoring_or_default scoring in
      if Sequence_len seq1 = 0 \<or> Sequence_len seq2 = 0
      then Inl (ValueError ''Sequences must be non-empty'')
      else
        let m = Sequence_len seq1; n = Sequence_len seq2;
            s1 = bases seq1; s2 = bases seq2;
            (H, tb) = nw_fill sc s1 s2;
            (aligned1, aligned2) = traceback_global s1 s2 tb m n
        in Alignment_new aligned1 aligned2 (H ! m ! n) GLOBAL)"

subsection \<open>alignment.py: several targets\<close>

text \<open>The loop of \<^verbatim>\<open>align_against_multiple\<close> over \<^verbatim>\<open>enumerate(targets)\<close>.\<close>

fun align_loop ::
  "Sequence \<Rightarrow> ScoringMatrix \<Rightarrow> (nat \<times> Sequence) list \<Rightarrow> (nat \<times> Alignment) list
     \<Rightarrow> error + (nat \<times> Alignment) list" where
  "align_loop query sc [] results = Inr results"
| "align_loop query sc ((i, target) # rest) results =
     (case smith_waterman query target (Some sc) of
        Inl e \<Rightarrow> Inl e
      | Inr alignment \<Rightarrow> align_loop query sc rest (results @ [(i, alignment)]))"

definition align_against_multiple ::
  "Sequence \<Rightarrow> Sequence list \<Rightarrow> ScoringMatrix option \<Rightarrow> error + (nat \<times> Alignment) list" where
  "align_against_multiple query targets scoring =
     (let sc = scoring_or_default scoring in
      if length targets = 0 then Inl (ValueError ''Target list cannot be empty'')
      else align_loop query sc (enumerate 0 targets) [])"

text \<open>
  \<^verbatim>\<open>max(xs, key=f)\<close> on a non-empty list: the first element stays unless a later one has a
  strictly larger key.
\<close>

fun max_by_key :: "('a \<Rightarrow> int) \<Rightarrow> 'a \<Rightarrow> 'a list \<Rightarrow> 'a" where
  "max_by_key f best [] = best"
| "max_by_key f best (x # xs) = max_by_key f (if f x > f best then x else best) xs"

definition find_best_alignment ::
  "Sequence \<Rightarrow> Sequence list \<Rightarrow> ScoringMatrix option \<Rightarrow> error + (nat \<times> Alignment) option" where
  "find_best_alignment query targets scoring =
     (case align_against_multiple query targets scoring of
        Inl e \<Rightarrow> Inl e
      | Inr alignments \<Rightarrow>
          (case alignments of
             [] \<Rightarrow> Inr None
           | a # as \<Rightarrow> Inr (Some (max_by_key (\<lambda>x. score (snd x)) a as))))"

subsection \<open>Notions for the proofs about the fill loops\<close>

text \<open>A matrix of \<open>m + 1\<close> rows of \<open>n + 1\<close> entries.\<close>

definition mat_ok :: "nat \<Rightarrow> nat \<Rightarrow> 'a list list \<Rightarrow> bool" where
  "mat_ok m n M \<longleftrightarrow> length M = m + 1 \<and> (\<forall>a \<le> m. length (M ! a) = n + 1)"

text \<open>
  The interior cells \<open>(a, b)\<close> already written when the loops have finished the rows before
  \<open>i\<close> and the columns up to \<open>j\<close> of row \<open>i\<close>.
\<close>

definition filled :: "nat \<Rightarrow> nat \<Rightarrow> nat \<Rightarrow> nat \<Rightarrow> bool" where
  "filled i j a b \<longleftrightarrow> 1 \<le> a \<and> 1 \<le> b \<and> (a < i \<or> (a = i \<and> b \<le> j))"

text \<open>During the global fill no written cell of the traceback matrix holds \<open>STOP\<close>.\<close>

definition nw_tb_inv :: "nat \<Rightarrow> nat \<Rightarrow> nat \<Rightarrow> nat \<Rightarrow> AlignDirection list list \<Rightarrow> bool" where
  "nw_tb_inv m n i j tb \<longleftrightarrow>
     mat_ok m n tb \<and> (\<forall>a b. a \<le> m \<and> b \<le> n \<and> filled i j a b \<longrightarrow> tb ! a ! b \<noteq> STOP)"

text \<open>
  The state of the local fill when the rows before \<open>i\<close> and the columns up to \<open>j\<close> of row
  \<open>i\<close> are written: both matrices keep their shape, every written cell holds what the
  recurrence gives from its neighbours, every other cell is still \<open>0\<close> and \<open>STOP\<close>, and the
  running maximum bounds all cells and is the value at the recorded position.
\<close>

definition sw_inv :: "ScoringMatrix \<Rightarrow> string \<Rightarrow> string \<Rightarrow> nat \<Rightarrow> nat \<Rightarrow> fill_state \<Rightarrow> bool" where
  "sw_inv sc s1 s2 i j st \<longleftrightarrow>
     mat_ok (length s1) (length s2) (H_matrix st) \<and>
     mat_ok (length s1) (length s2) (traceback st) \<and>
     (\<forall>a b. a \<le> length s1 \<and> b \<le> length s2 \<longrightarrow>
        (if filled i j a b
         then (H_matrix st ! a ! b, traceback st ! a ! b) = sw_best sc s1 s2 a b (H_matrix st)
         else H_matrix st ! a ! b = 0 \<and> traceback st ! a ! b = STOP)) \<and>
     (\<forall>a b. a \<le> length s1 \<and> b \<le> length s2 \<longrightarrow> H_matrix st ! a ! b \<le> max_score st) \<and>
     max_i st \<le> length s1 \<and> max_j st \<le> length s2 \<and>
     (max_i st = 0 \<or> filled i j (max_i st) (max_j st)) \<and>
     H_matrix st ! max_i st ! max_j st = max_score st"

text \<open>An aligned row with every gap symbol deleted.\<close>

definition strip_gaps :: "string \<Rightarrow> string" where
  "strip_gaps xs = filter (\<lambda>c. c \<noteq> CHR ''-'') xs"

subsection \<open>Facts about text\<close>

lemma of_char_lt_256: "(of_char c :: nat) < 256"
proof -
  have "(of_char c :: nat) mod 256 = of_char c" by (rule of_char_mod_256)
  moreover have "(of_char c :: nat) mod 256 < 256" by simp
  ultimately show ?thesis by simp
qed

lemma upper_char_nonempty: "upper_char c \<noteq> []"
  by (simp add: upper_char_def Let_def)

lemma upper_Nil_iff [simp]: "upper s = [] \<longleftrightarrow> s = []"
  by (cases s) (simp_all add: upper_def upper_char_nonempty)

lemma upper_char_base:
  "c \<in> VALID_DNA_BASES \<union> VALID_RNA_BASES \<Longrightarrow> upper_char c = [c]"
  by (auto simp: VALID_DNA_BASES_def VALID_RNA_BASES_def upper_char_def)

lemma upper_fixed: "\<forall>c \<in> set s. upper_char c = [c] \<Longrightarrow> upper s = s"
  by (induction s) (simp_all add: upper_def)

lemma upper_bases: "\<forall>c \<in> set s. c \<in> VALID_DNA_BASES \<union> VALID_RNA_BASES \<Longrightarrow> upper s = s"
  by (rule upper_fixed) (simp add: upper_char_base)

lemma valid_bases_of_subset: "valid_bases_of t \<subseteq> VALID_DNA_BASES \<union> VALID_RNA_BASES"
  by (auto simp: valid_bases_of_def)

lemma upper_valid: "is_valid s \<Longrightarrow> upper (bases s) = bases s"
  using valid_bases_of_subset by (intro upper_bases) (auto simp: is_valid_def)

text \<open>Upper-casing is idempotent: every character it produces is its own upper case.\<close>

lemma upper_char_fixed: "d \<in> set (upper_char c) \<Longrightarrow> upper_char d = [d]"
proof -
  assume d: "d \<in> set (upper_char c)"
  have lt: "(of_char c :: nat) < 256" by (rule of_char_lt_256)
  show ?thesis
    using d lt by (auto simp: upper_char_def Let_def split: if_splits)
qed

lemma upper_idem: "upper (upper s) = upper s"
  by (rule upper_fixed) (auto simp: upper_def dest: upper_char_fixed)

subsection \<open>Sequence transformations\<close>

lemma Sequence_init_validated:
  "Sequence_init b i d t True =
     (if b = [] then Inl EmptySequenceError
      else Inr \<lparr>bases = upper b, seq_id = i, description = d, seq_type = t, validated = True\<rparr>)"
  by (simp add: Sequence_init_def)

lemma complement_base_in: "complement_base c \<in> VALID_DNA_BASES"
  by (simp add: complement_base_def VALID_DNA_BASES_def)

lemma upper_complement: "upper (map complement_base s) = map complement_base s"
  by (rule upper_bases) (auto simp: complement_base_in)

lemma complement_base_invol: "c \<in> VALID_DNA_BASES \<Longrightarrow> complement_base (complement_base c) = c"
  by (auto simp: complement_base_def VALID_DNA_BASES_def)

lemma complement_DNA:
  "seq_type s = DNA \<Longrightarrow> bases s \<noteq> [] \<Longrightarrow>
   complement s = Inr \<lparr>bases = map complement_base (bases s), seq_id = seq_id s,
     description = description s, seq_type = DNA, validated = True\<rparr>"
  by (simp add: complement_def Sequence_init_validated upper_complement)

lemma reverse_ok:
  "bases s \<noteq> [] \<Longrightarrow>
   reverse s = Inr \<lparr>bases = upper (rev (bases s)), seq_id = seq_id s,
     description = description s, seq_type = seq_type s, validated = True\<rparr>"
  by (simp add: reverse_def Sequence_init_validated)

text \<open>
  Claim C3, as the code has it. \<^verbatim>\<open>complement\<close>, \<^verbatim>\<open>reverse_complement\<close> and \<^verbatim>\<open>transcribe\<close> test
  \<^verbatim>\<open>seq_type != DNA\<close> first and raise \<^verbatim>\<open>ValueError\<close> on an RNA sequence (and on any other
  non-DNA kind); on a non-empty DNA sequence each returns a new sequence. \<^verbatim>\<open>reverse\<close> has no
  such test: it returns the reversed sequence, of the same kind, for every non-empty sequence.
\<close>

theorem dna_only_transformations:
  "bases s \<noteq> [] \<Longrightarrow>
   (seq_type s \<noteq> DNA \<longrightarrow>
      complement s = Inl (ValueError ''Complement only available for DNA sequences'') \<and>
      reverse_complement s =
        Inl (ValueError ''Reverse complement only available for DNA sequences'') \<and>
      transcribe s = Inl (ValueError ''Can only transcribe DNA'')) \<and>
   (seq_type s = DNA \<longrightarrow>
      (\<exists>c. complement s = Inr c \<and> seq_type c = DNA \<and>
           bases c = map complement_base (bases s)) \<and>
      (\<exists>rc. reverse_complement s = Inr rc \<and> seq_type rc = DNA \<and>
           bases rc = rev (map complement_base (bases s))) \<and>
      (\<exists>t. transcribe s = Inr t \<and> seq_type t = RNA \<and>
           bases t = upper (map (\<lambda>c. if c = CHR ''T'' then CHR ''U'' else c) (bases s)))) \<and>
   (\<exists>r. reverse s = Inr r \<and> seq_type r = seq_type s \<and> bases r = upper (rev (bases s)))"
proof (intro conjI impI)
  assume ne: "bases s \<noteq> []" and dna: "seq_type s = DNA"
  show "\<exists>c. complement s = Inr c \<and> seq_type c = DNA \<and> bases c = map complement_base (bases s)"
    using ne dna by (simp add: complement_DNA)
  have "upper (rev (map complement_base (bases s))) = rev (map complement_base (bases s))"
    by (rule upper_bases) (auto simp: complement_base_in)
  then show "\<exists>rc. reverse_complement s = Inr rc \<and> seq_type rc = DNA \<and>
           bases rc = rev (map complement_base (bases s))"
    using ne dna by (simp add: reverse_complement_def complement_DNA reverse_ok)
  show "\<exists>t. transcribe s = Inr t \<and> seq_type t = RNA \<and>
           bases t = upper (map (\<lambda>c. if c = CHR ''T'' then CHR ''U'' else c) (bases s))"
    using ne dna by (simp add: transcribe_def Sequence_init_validated)
next
  assume ne: "bases s \<noteq> []"
  show "\<exists>r. reverse s = Inr r \<and> seq_type r = seq_type s \<and> bases r = upper (rev (bases s))"
    using ne by (simp add: reverse_ok)
qed (simp_all add: complement_def reverse_complement_def transcribe_def)

theorem dna_only_transformations_witness:
  "(\<exists>c. complement \<lparr>bases = ''ATCG'', seq_id = None, description = None, seq_type = DNA,
          validated = True\<rparr> = Inr c \<and> bases c = ''TAGC'') \<and>
   (\<exists>t. transcribe \<lparr>bases = ''ATCG'', seq_id = None, description = None, seq_type = DNA,
          validated = True\<rparr> = Inr t \<and> seq_type t = RNA \<and> bases t = ''AUCG'') \<and>
   complement \<lparr>bases = ''AUG'', seq_id = None, description = None, seq_type = RNA,
          validated = True\<rparr> = Inl (ValueError ''Complement only available for DNA sequences'') \<and>
   (\<exists>r. reverse \<lparr>bases = ''AUG'', seq_id = None, description = None, seq_type = RNA,
          validated = True\<rparr> = Inr r \<and> seq_type r = RNA \<and> bases r = ''GUA'')"
  using dna_only_transformations [of "\<lparr>bases = ''ATCG'', seq_id = None, description = None,
          seq_type = DNA, validated = True\<rparr>"]
        dna_only_transformations [of "\<lparr>bases = ''AUG'', seq_id = None, description = None,
          seq_type = RNA, validated = True\<rparr>"]
  by (auto simp: complement_base_def upper_def upper_char_def)

text \<open>
  The claim C3 as written fails for \<^verbatim>\<open>reverse\<close>: the RNA sequence that the constructor builds
  from \<^verbatim>\<open>AUG\<close> is reversed without an error.
\<close>

theorem reverse_rna_counterexample:
  "Sequence_init ''AUG'' None None RNA False =
     Inr \<lparr>bases = ''AUG'', seq_id = None, description = None, seq_type = RNA, validated = True\<rparr> \<and>
   reverse \<lparr>bases = ''AUG'', seq_id = None, description = None, seq_type = RNA, validated = True\<rparr> =
     Inr \<lparr>bases = ''GUA'', seq_id = None, description = None, seq_type = RNA, validated = True\<rparr>"
  by (simp add: Sequence_init_def Sequence_validate_def valid_bases_of_def VALID_RNA_BASES_def
      reverse_def upper_def upper_char_def)

text \<open>
  Claim C8. For a valid non-empty DNA sequence, \<^verbatim>\<open>complement\<close> applied twice succeeds and gives
  back the original bases; for a valid non-empty sequence of any kind, \<^verbatim>\<open>reverse\<close> applied
  twice succeeds and gives back the original bases.
\<close>

theorem complement_reverse_involutions:
  "is_valid s \<Longrightarrow> bases s \<noteq> [] \<Longrightarrow>
   (seq_type s = DNA \<longrightarrow>
      (\<exists>c c2. complement s = Inr c \<and> complement c = Inr c2 \<and> bases c2 = bases s)) \<and>
   (\<exists>r r2. reverse s = Inr r \<and> reverse r = Inr r2 \<and> bases r2 = bases s)"
proof (intro conjI impI)
  assume v: "is_valid s" and ne: "bases s \<noteq> []"
  have up: "upper (bases s) = bases s" using v by (rule upper_valid)
  have "upper (rev (bases s)) = rev (bases s)"
    using v valid_bases_of_subset by (intro upper_bases) (auto simp: is_valid_def)
  then show "\<exists>r r2. reverse s = Inr r \<and> reverse r = Inr r2 \<and> bases r2 = bases s"
    using ne up by (simp add: reverse_ok)
next
  assume v: "is_valid s" and ne: "bases s \<noteq> []" and dna: "seq_type s = DNA"
  have "\<forall>c \<in> set (bases s). c \<in> VALID_DNA_BASES"
    using v dna by (simp add: is_valid_def valid_bases_of_def)
  then have "map (complement_base \<circ> complement_base) (bases s) = bases s"
    by (intro map_idI) (simp add: complement_base_invol)
  then show "\<exists>c c2. complement s = Inr c \<and> complement c = Inr c2 \<and> bases c2 = bases s"
    using ne dna by (simp add: complement_DNA)
qed

theorem complement_reverse_involutions_witness:
  "is_valid \<lparr>bases = ''ATCG'', seq_id = None, description = None, seq_type = DNA,
          validated = True\<rparr> \<and>
   (\<exists>c c2. complement \<lparr>bases = ''ATCG'', seq_id = None, description = None, seq_type = DNA,
          validated = True\<rparr> = Inr c \<and> complement c = Inr c2 \<and> bases c2 = ''ATCG'') \<and>
   (\<exists>r r2. reverse \<lparr>bases = ''ATCG'', seq_id = None, description = None, seq_type = DNA,
          validated = True\<rparr> = Inr r \<and> reverse r = Inr r2 \<and> bases r2 = ''ATCG'')"
proof -
  have v: "is_valid \<lparr>bases = ''ATCG'', seq_id = None, description = None, seq_type = DNA,
          validated = True\<rparr>"
    by (simp add: is_valid_def valid_bases_of_def VALID_DNA_BASES_def)
  show ?thesis
    using v complement_reverse_involutions [OF v] by simp
qed

subsection \<open>k-mers\<close>










subsection \<open>The counter\<close>

lemma set_update_subset: "set (AList.update key v al) \<subseteq> insert (key, v) (set al)"
  by (induction al) auto

lemma sum_update:
  "sum_list (map snd (AList.update key (dict_get al key 0 + n) al)) =
   sum_list (map snd al) + (n :: int)"
  by (induction al) (auto simp: dict_get_def)

lemma dict_get_nonneg:
  "\<forall>(a, n) \<in> set al. 0 < n \<Longrightarrow> 0 \<le> dict_get al key (0 :: int)"
proof (cases "map_of al key")
  case None
  then show ?thesis by (simp add: dict_get_def)
next
  case (Some v)
  assume pos: "\<forall>(a, n) \<in> set al. 0 < n"
  from Some have "(key, v) \<in> set al" by (rule map_of_SomeD)
  with pos have "0 < v" by auto
  with Some show ?thesis by (simp add: dict_get_def)
qed

lemma counter_inv_put:
  assumes inv: "counter_inv c" and len: "int (length key) = counter_k c" and pos: "0 < n"
  shows "counter_inv (c\<lparr>counts := AList.update key (dict_get (counts c) key 0 + n) (counts c),
                        total_kmers := total_kmers c + n\<rparr>)"
proof -
  have allpos: "\<forall>(a, n) \<in> set (counts c). 0 < n"
    using inv by (auto simp: counter_inv_def)
  have v: "0 < dict_get (counts c) key 0 + n"
    using dict_get_nonneg [OF allpos, of key] pos by simp
  have "\<forall>(a, m) \<in> set (AList.update key (dict_get (counts c) key 0 + n) (counts c)).
          int (length a) = counter_k c \<and> 0 < m"
    using set_update_subset [of key "dict_get (counts c) key 0 + n" "counts c"] inv len v
    by (auto simp: counter_inv_def)
  then show ?thesis
    using inv by (simp add: counter_inv_def distinct_update sum_update)
qed

lemma counter_inv_new: "KMerCounter_new kk = Inr c \<Longrightarrow> counter_inv c \<and> counter_k c = kk \<and> total_kmers c = 0"
  by (auto simp: KMerCounter_new_def KMerCounter_init_def counter_inv_def split: if_splits)

lemma counter_inv_add:
  assumes "KMerCounter_add c kmer n = Inr c'" and "counter_inv c"
    and "length (upper kmer) = length kmer"
  shows "counter_inv c' \<and> counter_k c' = counter_k c \<and> total_kmers c' = total_kmers c + n"
proof -
  from assms(1) have len: "int (length kmer) = counter_k c" and pos: "0 < n"
    and c': "c' = c\<lparr>counts := AList.update (upper kmer)
                        (dict_get (counts c) (upper kmer) 0 + n) (counts c),
                     total_kmers := total_kmers c + n\<rparr>"
    by (auto simp: KMerCounter_add_def Let_def split: if_splits)
  have "counter_inv c'"
    unfolding c' using assms(2) _ pos by (rule counter_inv_put) (simp add: assms(3) len)
  then show ?thesis by (simp add: c')
qed

lemma counter_inv_merge_fold:
  "counter_inv c \<Longrightarrow> \<forall>(a, n) \<in> set xs. int (length a) = counter_k c \<and> 0 < n \<Longrightarrow>
   counter_inv (fold merge_step xs c) \<and> counter_k (fold merge_step xs c) = counter_k c \<and>
   total_kmers (fold merge_step xs c) = total_kmers c + sum_list (map snd xs)"
proof (induction xs arbitrary: c)
  case Nil
  then show ?case by simp
next
  case (Cons p xs)
  obtain a n where p: "p = (a, n)" by (cases p)
  have step: "counter_inv (merge_step (a, n) c)"
    unfolding merge_step_def prod.case using Cons.prems p by (intro counter_inv_put) auto
  have k: "counter_k (merge_step (a, n) c) = counter_k c"
    by (simp add: merge_step_def)
  have t: "total_kmers (merge_step (a, n) c) = total_kmers c + n"
    by (simp add: merge_step_def)
  have rest: "\<forall>(a', n') \<in> set xs. int (length a') = counter_k (merge_step (a, n) c) \<and> 0 < n'"
    using Cons.prems(2) by (simp add: k)
  show ?case
    unfolding p using Cons.IH [OF step rest] by (simp add: k t)
qed

lemma counter_inv_merge:
  assumes "counter_inv self" and "counter_inv other" and "counter_k self = counter_k other"
  shows "\<exists>c'. merge self other = Inr c' \<and> counter_inv c' \<and> counter_k c' = counter_k self \<and>
           total_kmers c' = total_kmers self + total_kmers other"
proof -
  have "\<forall>(a, n) \<in> set (counts other). int (length a) = counter_k self \<and> 0 < n"
    using assms(2,3) by (auto simp: counter_inv_def)
  from counter_inv_merge_fold [OF assms(1) this]
  have f: "counter_inv (fold merge_step (counts other) self)"
    "counter_k (fold merge_step (counts other) self) = counter_k self"
    "total_kmers (fold merge_step (counts other) self) =
       total_kmers self + sum_list (map snd (counts other))"
    by simp_all
  have "total_kmers other = sum_list (map snd (counts other))"
    using assms(2) by (simp add: counter_inv_def)
  then show ?thesis
    using assms(3) f by (simp add: merge_def)
qed

text \<open>The windows the loop cuts.\<close>

lemma py_slice_window:
  "i + kk \<le> length sq \<Longrightarrow> py_slice sq (int i) (int i + int kk) = take kk (drop i sq)"
  by (simp add: py_slice_def Let_def min_def)

lemma count_kmers_loop_total:
  assumes fixed: "\<forall>d \<in> set sq. upper_char d = [d]"
    and k: "counter_k c = int kk" and inv: "counter_inv c"
    and rng: "\<forall>i \<in> set is. i + kk \<le> length sq"
  shows "\<exists>c'. count_kmers_loop c sq is = Inr c' \<and> counter_inv c' \<and> counter_k c' = counter_k c \<and>
           total_kmers c' =
             total_kmers c + int (length (filter (\<lambda>i. CHR ''N'' \<notin> set (take kk (drop i sq))) is))"
  using k inv rng
proof (induction "is" arbitrary: c)
  case Nil
  then show ?case by simp
next
  case (Cons i "is")
  let ?w = "take kk (drop i sq)"
  have sl: "py_slice sq (int i) (int i + int kk) = ?w"
    using Cons.prems by (simp add: py_slice_window)
  have unfold: "count_kmers_loop c sq (i # is) =
      (if CHR ''N'' \<notin> set ?w then
         (case KMerCounter_add c ?w 1 of Inl e \<Rightarrow> Inl e | Inr c' \<Rightarrow> count_kmers_loop c' sq is)
       else count_kmers_loop c sq is)"
    by (simp add: Cons.prems(1) sl)
  have "i + kk \<le> length sq" using Cons.prems(3) by simp
  then have "kk \<le> length sq - i" by linarith
  then have len: "length ?w = kk" by simp
  have "set ?w \<subseteq> set sq" by (meson set_drop_subset set_take_subset subset_trans)
  then have up: "upper ?w = ?w" using fixed by (intro upper_fixed) auto
  show ?case
  proof (cases "CHR ''N'' \<in> set ?w")
    case True
    then show ?thesis using Cons.IH [of c] Cons.prems unfolding unfold by simp
  next
    case False
    have add: "KMerCounter_add c ?w 1 =
        Inr (c\<lparr>counts := AList.update ?w (dict_get (counts c) ?w 0 + 1) (counts c),
               total_kmers := total_kmers c + 1\<rparr>)" (is "_ = Inr ?c1")
      using Cons.prems(1) len by (simp add: KMerCounter_add_def up Let_def)
    have "length (upper ?w) = length ?w" by (simp add: up)
    from counter_inv_add [OF add Cons.prems(2) this]
    have c1: "counter_inv ?c1" "counter_k ?c1 = int kk" using Cons.prems(1) by simp_all
    show ?thesis
      using Cons.IH [OF c1(2) c1(1)] Cons.prems(3) False unfolding unfold add
      by (simp add: add.assoc)
  qed
qed

lemma filter_windows:
  "length (filter (\<lambda>i. CHR ''N'' \<notin> set (take kk (drop i sq))) [0 ..< length sq + 1 - kk]) =
   length (windows_without_N sq kk)"
  by (simp add: windows_without_N_def windows_def filter_map comp_def)

lemma no_N_all_windows:
  "CHR ''N'' \<notin> set sq \<Longrightarrow> windows_without_N sq kk = windows sq kk"
proof -
  assume n: "CHR ''N'' \<notin> set sq"
  have "\<And>i. set (take kk (drop i sq)) \<subseteq> set sq"
    by (meson set_drop_subset set_take_subset subset_trans)
  with n show ?thesis
    by (auto simp: windows_without_N_def windows_def filter_id_conv)
qed

lemma Sequence_init_bases:
  "Sequence_init b i d t v = Inr s \<Longrightarrow> bases s = upper b \<and> bases s \<noteq> []"
  by (auto simp: Sequence_init_def Let_def split: if_splits sum.splits)

lemma counter_inv_count_kmers:
  assumes inv: "counter_inv c" and k: "0 < counter_k c"
  shows "\<exists>c'. KMerCounter_count_kmers c sq0 = Inr c' \<and> counter_inv c' \<and>
           counter_k c' = counter_k c \<and>
           total_kmers c' =
             total_kmers c + int (length (windows_without_N (upper sq0) (nat (counter_k c))))"
proof -
  define kk where "kk = nat (counter_k c)"
  have k0: "counter_k c = int kk" using k by (simp add: kk_def)
  have fixed: "\<forall>d \<in> set (upper sq0). upper_char d = [d]"
    by (auto simp: upper_def dest: upper_char_fixed)
  have "nat (int (length (upper sq0)) - counter_k c + 1) = length (upper sq0) + 1 - kk"
    using k by (simp add: kk_def)
  then have rng: "py_range (int (length (upper sq0)) - counter_k c + 1) =
      [0 ..< length (upper sq0) + 1 - kk]"
    by (simp only: py_range_def)
  have "\<forall>i \<in> set [0 ..< length (upper sq0) + 1 - kk]. i + kk \<le> length (upper sq0)"
    using k by (auto simp: kk_def)
  from count_kmers_loop_total [OF fixed k0 inv this]
  obtain c' where run: "count_kmers_loop c (upper sq0) [0 ..< length (upper sq0) + 1 - kk] = Inr c'"
    and inv': "counter_inv c'" and k': "counter_k c' = counter_k c"
    and tot: "total_kmers c' = total_kmers c +
        int (length (filter (\<lambda>i. CHR ''N'' \<notin> set (take kk (drop i (upper sq0))))
               [0 ..< length (upper sq0) + 1 - kk]))"
    by blast
  have res: "KMerCounter_count_kmers c sq0 = Inr c'"
    unfolding KMerCounter_count_kmers_def Let_def rng by (rule run)
  have "total_kmers c' =
      total_kmers c + int (length (windows_without_N (upper sq0) (nat (counter_k c))))"
    using tot by (simp only: filter_windows kk_def)
  with res inv' k' show ?thesis by blast
qed

text \<open>
  Claim C5. For a sequence \<open>s\<close> that the constructor built and a width \<open>0 < k \<le> len(s)\<close>,
  \<^verbatim>\<open>count_kmers(s, k)\<close> returns a counter whose total is the number of width-\<open>k\<close> windows of the
  bases without \<^verbatim>\<open>N\<close>; if the bases contain no \<^verbatim>\<open>N\<close> at all, the total is \<open>len(s) - k + 1\<close>.
\<close>

theorem count_kmers_total:
  assumes s: "Sequence_init b i d t v = Inr s"
    and k: "0 < kk" "kk \<le> int (length (bases s))"
  shows "\<exists>c. count_kmers s kk = Inr c \<and> counter_k c = kk \<and>
           total_kmers c = int (length (windows_without_N (bases s) (nat kk))) \<and>
           (CHR ''N'' \<notin> set (bases s) \<longrightarrow> total_kmers c = int (length (bases s)) - kk + 1)"
proof -
  define c0 where "c0 = \<lparr>counter_k = kk, counts = [], total_kmers = 0\<rparr>"
  have new: "KMerCounter_new kk = Inr c0"
    using k by (simp add: KMerCounter_new_def KMerCounter_init_def c0_def)
  have inv0: "counter_inv c0" using counter_inv_new [OF new] by simp
  have bs: "bases s = upper b" using Sequence_init_bases [OF s] by simp
  have fixed: "\<forall>d \<in> set (bases s). upper_char d = [d]"
    unfolding bs by (auto simp: upper_def dest: upper_char_fixed)
  have up: "upper (bases s) = bases s" using fixed by (rule upper_fixed)
  have k0: "counter_k c0 = int (nat kk)" using k by (simp add: c0_def)
  have "nat (int (length (bases s)) - kk + 1) = length (bases s) + 1 - nat kk"
    using k by linarith
  then have rng: "py_range (int (length (bases s)) - kk + 1) = [0 ..< length (bases s) + 1 - nat kk]"
    by (simp only: py_range_def)
  have "\<forall>i \<in> set [0 ..< length (bases s) + 1 - nat kk]. i + nat kk \<le> length (bases s)"
    using k by auto
  from count_kmers_loop_total [OF fixed k0 inv0 this]
  obtain c where c: "count_kmers_loop c0 (bases s) [0 ..< length (bases s) + 1 - nat kk] = Inr c"
    and ck0: "counter_k c = counter_k c0"
    and tot0: "total_kmers c = total_kmers c0 +
        int (length (filter (\<lambda>i. CHR ''N'' \<notin> set (take (nat kk) (drop i (bases s))))
               [0 ..< length (bases s) + 1 - nat kk]))"
    by blast
  have ck: "counter_k c = kk" using ck0 by (simp add: c0_def)
  have tot: "total_kmers c = int (length (windows_without_N (bases s) (nat kk)))"
    using tot0 by (simp only: filter_windows) (simp add: c0_def)
  have run: "count_kmers s kk = Inr c"
    using k c by (simp add: count_kmers_def Sequence_len_def new count_from_sequence_def
        KMerCounter_count_kmers_def up rng c0_def)
  have "total_kmers c = int (length (bases s)) - kk + 1" if "CHR ''N'' \<notin> set (bases s)"
    using that k by (simp add: tot no_N_all_windows windows_def)
  with run ck tot show ?thesis by blast
qed

theorem count_kmers_total_witness:
  "Sequence_init ''atcgnatcg'' None None DNA False =
     Inr \<lparr>bases = ''ATCGNATCG'', seq_id = None, description = None, seq_type = DNA,
          validated = True\<rparr> \<and>
   (\<exists>c. count_kmers \<lparr>bases = ''ATCGNATCG'', seq_id = None, description = None, seq_type = DNA,
          validated = True\<rparr> 3 = Inr c \<and> total_kmers c = 4) \<and>
   Sequence_init ''ATCGATCG'' None None DNA False =
     Inr \<lparr>bases = ''ATCGATCG'', seq_id = None, description = None, seq_type = DNA,
          validated = True\<rparr> \<and>
   (\<exists>c. count_kmers \<lparr>bases = ''ATCGATCG'', seq_id = None, description = None, seq_type = DNA,
          validated = True\<rparr> 3 = Inr c \<and> total_kmers c = 6)"
proof -
  have i: "Sequence_init ''atcgnatcg'' None None DNA False =
     Inr \<lparr>bases = ''ATCGNATCG'', seq_id = None, description = None, seq_type = DNA,
          validated = True\<rparr>"
    by code_simp
  have w: "length (windows_without_N ''ATCGNATCG'' 3) = 4"
    by (simp add: windows_without_N_def windows_def upt_rec)
  have i2: "Sequence_init ''ATCGATCG'' None None DNA False =
     Inr \<lparr>bases = ''ATCGATCG'', seq_id = None, description = None, seq_type = DNA,
          validated = True\<rparr>"
    by code_simp
  have a: "\<exists>c. count_kmers \<lparr>bases = ''ATCGNATCG'', seq_id = None, description = None,
          seq_type = DNA, validated = True\<rparr> 3 = Inr c \<and> total_kmers c = 4"
    using count_kmers_total [OF i, of 3] by (auto simp: w)
  have b: "\<exists>c. count_kmers \<lparr>bases = ''ATCGATCG'', seq_id = None, description = None,
          seq_type = DNA, validated = True\<rparr> 3 = Inr c \<and> total_kmers c = 6"
    using count_kmers_total [OF i2, of 3] by auto
  show ?thesis
    using i i2 a b by blast
qed

text \<open>
  Claim C7. The invariant holds for a new counter (\<open>counter_inv_new\<close>) and is kept by
  \<^verbatim>\<open>count_kmers\<close> (\<open>counter_inv_count_kmers\<close>), by \<^verbatim>\<open>merge\<close> (\<open>counter_inv_merge\<close>), and by \<^verbatim>\<open>add\<close>
  when upper-casing keeps the length of the k-mer (\<open>counter_inv_add\<close>). But \<^verbatim>\<open>add\<close> compares
  the length with \<open>k\<close> before it upper-cases the k-mer, where \<^verbatim>\<open>KMer.__post_init__\<close> and
  \<^verbatim>\<open>count_kmers\<close> upper-case first. On a counter with \<open>k = 1\<close>, adding the one-character string
  U+00DF passes the length test and stores the key \<^verbatim>\<open>SS\<close> of length 2.
\<close>

theorem add_sharp_s_breaks_invariant:
  "KMerCounter_new 1 = Inr \<lparr>counter_k = 1, counts = [], total_kmers = 0\<rparr> \<and>
   counter_inv \<lparr>counter_k = 1, counts = [], total_kmers = 0\<rparr> \<and>
   length [CHR 0xDF] = 1 \<and>
   KMerCounter_add \<lparr>counter_k = 1, counts = [], total_kmers = 0\<rparr> [CHR 0xDF] 1 =
     Inr \<lparr>counter_k = 1, counts = [(''SS'', 1)], total_kmers = 1\<rparr> \<and>
   \<not> counter_inv \<lparr>counter_k = 1, counts = [(''SS'', 1)], total_kmers = 1\<rparr>"
  by (simp add: KMerCounter_new_def KMerCounter_init_def counter_inv_def KMerCounter_add_def
      upper_def upper_char_def dict_get_def)

text \<open>The stored key, read back from the counter that \<^verbatim>\<open>add\<close> returns.\<close>

theorem add_sharp_s_breaks_invariant_witness:
  "\<exists>c. KMerCounter_add \<lparr>counter_k = 1, counts = [], total_kmers = 0\<rparr> [CHR 0xDF] 1 = Inr c \<and>
       counter_k c = 1 \<and> map (\<lambda>kv. length (fst kv)) (counts c) = [2]"
  using add_sharp_s_breaks_invariant by simp

subsection \<open>Loops over an index range\<close>

lemma fold_upt_invariant:
  assumes "P a s" and "a \<le> b"
    and "\<And>k s. a \<le> k \<Longrightarrow> k < b \<Longrightarrow> P k s \<Longrightarrow> P (Suc k) (f k s)"
  shows "P b (fold f [a ..< b] s)"
  using assms(2,3)
proof (induction b)
  case 0
  then show ?case using assms(1) by simp
next
  case (Suc b)
  show ?case
  proof (cases "a = Suc b")
    case True
    then show ?thesis using assms(1) by simp
  next
    case False
    then have le: "a \<le> b" using Suc.prems(1) by simp
    have "P b (fold f [a ..< b] s)"
      using le Suc.prems(2) by (intro Suc.IH) simp_all
    then have "P (Suc b) (f b (fold f [a ..< b] s))"
      using le by (intro Suc.prems(2)) simp_all
    then show ?thesis using le by simp
  qed
qed

lemma fold_pair:
  "fold (\<lambda>x st. (f x (fst st), g x (snd st))) xs (s, t) = (fold f xs s, fold g xs t)"
  by (induction xs arbitrary: s t) simp_all

subsection \<open>One cell of the Smith-Waterman fill\<close>

lemma fst_sw_choose: "fst (sw_choose d u l) = max 0 (max d (max u l))"
  by (simp add: sw_choose_def take_if_greater_def)

lemma snd_sw_choose:
  "snd (sw_choose d u l) =
     (if max 0 (max d (max u l)) = 0 then STOP
      else if d = max 0 (max d (max u l)) then DIAGONAL
      else if u = max 0 (max d (max u l)) then UP else LEFT)"
  by (simp add: sw_choose_def take_if_greater_def)

lemma sw_cell_H:
  "H_matrix (sw_cell sc s1 s2 i j st) =
     (H_matrix st)[i := (H_matrix st ! i)[j := fst (sw_best sc s1 s2 i j (H_matrix st))]]"
  by (simp add: sw_cell_def sw_best_def Let_def split: prod.splits)

lemma sw_cell_tb:
  "traceback (sw_cell sc s1 s2 i j st) =
     (traceback st)[i := (traceback st ! i)[j := snd (sw_best sc s1 s2 i j (H_matrix st))]]"
  by (simp add: sw_cell_def sw_best_def Let_def split: prod.splits)

lemma sw_cell_max:
  "max_score (sw_cell sc s1 s2 i j st) =
     max (max_score st) (fst (sw_best sc s1 s2 i j (H_matrix st)))"
  by (simp add: sw_cell_def sw_best_def Let_def max_def split: prod.splits)

lemma so_cell_eq:
  "so_cell sc s1 s2 i j (H ! (i - 1), H ! i, mx) =
     (H ! (i - 1), (H ! i)[j := fst (sw_best sc s1 s2 i j H)],
      max mx (fst (sw_best sc s1 s2 i j H)))"
  by (simp add: so_cell_def sw_best_def fst_sw_choose Let_def max_def)


subsection \<open>The two-row variant follows the full matrix\<close>

lemma sw_so_cells:
  "0 < i \<Longrightarrow> i < length (H_matrix st) \<Longrightarrow>
   length (H_matrix (fold (sw_cell sc s1 s2 i) js st)) = length (H_matrix st) \<and>
   (\<forall>a. a \<noteq> i \<longrightarrow> H_matrix (fold (sw_cell sc s1 s2 i) js st) ! a = H_matrix st ! a) \<and>
   fold (so_cell sc s1 s2 i) js (H_matrix st ! (i - 1), H_matrix st ! i, max_score st) =
     (H_matrix (fold (sw_cell sc s1 s2 i) js st) ! (i - 1),
      H_matrix (fold (sw_cell sc s1 s2 i) js st) ! i,
      max_score (fold (sw_cell sc s1 s2 i) js st))"
proof (induction js arbitrary: st)
  case Nil
  show ?case by simp
next
  case (Cons j js)
  let ?st = "sw_cell sc s1 s2 i j st"
  have len: "length (H_matrix ?st) = length (H_matrix st)"
    by (simp add: sw_cell_H)
  have other: "\<And>a. a \<noteq> i \<Longrightarrow> H_matrix ?st ! a = H_matrix st ! a"
    by (simp add: sw_cell_H)
  have row: "H_matrix ?st ! i = (H_matrix st ! i)[j := fst (sw_best sc s1 s2 i j (H_matrix st))]"
    using Cons.prems by (simp add: sw_cell_H)
  have prev: "H_matrix ?st ! (i - 1) = H_matrix st ! (i - 1)"
    using Cons.prems by (intro other) simp
  have step: "so_cell sc s1 s2 i j (H_matrix st ! (i - 1), H_matrix st ! i, max_score st) =
      (H_matrix ?st ! (i - 1), H_matrix ?st ! i, max_score ?st)"
    by (simp only: so_cell_eq row prev sw_cell_max)
  have ih: "length (H_matrix (fold (sw_cell sc s1 s2 i) js ?st)) = length (H_matrix ?st) \<and>
   (\<forall>a. a \<noteq> i \<longrightarrow> H_matrix (fold (sw_cell sc s1 s2 i) js ?st) ! a = H_matrix ?st ! a) \<and>
   fold (so_cell sc s1 s2 i) js (H_matrix ?st ! (i - 1), H_matrix ?st ! i, max_score ?st) =
     (H_matrix (fold (sw_cell sc s1 s2 i) js ?st) ! (i - 1),
      H_matrix (fold (sw_cell sc s1 s2 i) js ?st) ! i,
      max_score (fold (sw_cell sc s1 s2 i) js ?st))"
    using Cons.prems by (intro Cons.IH) (simp_all add: len)
  have unf: "fold (sw_cell sc s1 s2 i) (j # js) st = fold (sw_cell sc s1 s2 i) js ?st"
    "fold (so_cell sc s1 s2 i) (j # js) (H_matrix st ! (i - 1), H_matrix st ! i, max_score st) =
     fold (so_cell sc s1 s2 i) js (H_matrix ?st ! (i - 1), H_matrix ?st ! i, max_score ?st)"
    by (simp_all only: fold_simps step)
  show ?case
    unfolding unf using ih len other by auto
qed

lemma sw_so_row:
  assumes i: "0 < i" "i < length (H_matrix st)"
    and fresh: "H_matrix st ! i = replicate (n + 1) 0"
  shows "so_row sc s1 s2 n i (H_matrix st ! (i - 1), junk, max_score st) =
           (H_matrix (sw_row sc s1 s2 n i st) ! i, H_matrix (sw_row sc s1 s2 n i st) ! (i - 1),
            max_score (sw_row sc s1 s2 n i st))"
    and "length (H_matrix (sw_row sc s1 s2 n i st)) = length (H_matrix st)"
    and "\<And>a. a \<noteq> i \<Longrightarrow> H_matrix (sw_row sc s1 s2 n i st) ! a = H_matrix st ! a"
proof -
  note cells = sw_so_cells [OF i, of sc s1 s2 "[1 ..< n + 1]"]
  show "length (H_matrix (sw_row sc s1 s2 n i st)) = length (H_matrix st)"
    using cells by (simp add: sw_row_def)
  show "\<And>a. a \<noteq> i \<Longrightarrow> H_matrix (sw_row sc s1 s2 n i st) ! a = H_matrix st ! a"
    using cells by (simp add: sw_row_def)
  have "fold (so_cell sc s1 s2 i) [1 ..< n + 1] (H_matrix st ! (i - 1), replicate (n + 1) 0, max_score st) =
     (H_matrix (sw_row sc s1 s2 n i st) ! (i - 1), H_matrix (sw_row sc s1 s2 n i st) ! i,
      max_score (sw_row sc s1 s2 n i st))"
    using cells unfolding sw_row_def fresh by blast
  then show "so_row sc s1 s2 n i (H_matrix st ! (i - 1), junk, max_score st) =
           (H_matrix (sw_row sc s1 s2 n i st) ! i, H_matrix (sw_row sc s1 s2 n i st) ! (i - 1),
            max_score (sw_row sc s1 s2 n i st))"
    by (simp add: so_row_def)
qed

lemma sw_init_H: "a \<le> m \<Longrightarrow> H_matrix (sw_init m n) ! a = replicate (n + 1) 0"
  by (simp add: sw_init_def del: replicate_Suc)

lemma sw_so_fill:
  "snd (snd (fold (so_row sc s1 s2 n) [1 ..< m + 1] (replicate (n + 1) 0, replicate (n + 1) 0, 0))) =
   max_score (fold (sw_row sc s1 s2 n) [1 ..< m + 1] (sw_init m n))"
proof -
  let ?f = "\<lambda>k st. (sw_row sc s1 s2 n k (fst st), so_row sc s1 s2 n k (snd st))"
  let ?P = "\<lambda>k st. length (H_matrix (fst st)) = m + 1 \<and>
      (\<forall>a. k \<le> a \<and> a \<le> m \<longrightarrow> H_matrix (fst st) ! a = replicate (n + 1) 0) \<and>
      fst (snd st) = H_matrix (fst st) ! (k - 1) \<and>
      snd (snd (snd st)) = max_score (fst st)"
  let ?s0 = "(sw_init m n, (replicate (n + 1) (0::int), replicate (n + 1) (0::int), 0::int))"
  have init: "?P 1 ?s0"
    by (simp add: sw_init_H del: replicate_Suc) (simp add: sw_init_def)
  have step: "?P (Suc k) (?f k st)" if k: "1 \<le> k" "k < m + 1" and P: "?P k st" for k st
  proof -
    obtain s prev junk mx where st: "st = (s, prev, junk, mx)" by (cases st) auto
    have i: "0 < k" "k < length (H_matrix s)" using k P by (simp_all add: st)
    have fresh: "H_matrix s ! k = replicate (n + 1) 0" using k P by (simp add: st)
    have pv: "prev = H_matrix s ! (k - 1)" and mx: "mx = max_score s" using P by (simp_all add: st)
    note r1 = sw_so_row(1) [OF i fresh, where sc = sc and ?s1.0 = s1 and ?s2.0 = s2 and junk = junk]
    note r2 = sw_so_row(2) [OF i fresh, where sc = sc and ?s1.0 = s1 and ?s2.0 = s2]
    have r3: "\<forall>a. a \<noteq> k \<longrightarrow> H_matrix (sw_row sc s1 s2 n k s) ! a = H_matrix s ! a"
      using sw_so_row(3) [OF i fresh] by blast
    show ?thesis
      using P k r1 r2 r3 by (simp add: st pv mx)
  qed
  have "?P (m + 1) (fold ?f [1 ..< m + 1] ?s0)"
    using init _ step by (rule fold_upt_invariant [where P = ?P and f = ?f]) simp
  then show ?thesis
    by (simp add: fold_pair)
qed


lemma traceback_local_loop_length:
  "length a1 = length a2 \<Longrightarrow> traceback_local_loop seq1 seq2 tb i j a1 a2 = (r1, r2, bi, bj) \<Longrightarrow>
   length r1 = length r2"
proof (induction seq1 seq2 tb i j a1 a2 rule: traceback_local_loop.induct)
  case (1 seq1 seq2 tb i j a1 a2)
  from "1.prems"(2) show ?case
    using "1.IH" "1.prems"(1)
    by (subst (asm) traceback_local_loop.simps) (auto split: if_splits AlignDirection.splits)
qed


lemma smith_waterman_unfold:
  assumes "bases seq1 \<noteq> []" "bases seq2 \<noteq> []"
  shows "smith_waterman seq1 seq2 scoring =
     (let st = sw_fill (scoring_or_default scoring) (bases seq1) (bases seq2) in
      case traceback_local (bases seq1) (bases seq2) (traceback st) (max_i st) (max_j st) of
        (aligned1, aligned2, b1, b2) \<Rightarrow>
           with_positions aligned1 aligned2 (max_score st) b1 (max_i st) b2 (max_j st) LOCAL)"
  using assms unfolding smith_waterman_def Sequence_len_def Let_def by simp


lemma smith_waterman_result:
  assumes "bases seq1 \<noteq> []" "bases seq2 \<noteq> []"
  shows "\<exists>a. smith_waterman seq1 seq2 scoring = Inr a \<and>
           score a = max_score (sw_fill (scoring_or_default scoring) (bases seq1) (bases seq2))"
proof -
  define st where "st = sw_fill (scoring_or_default scoring) (bases seq1) (bases seq2)"
  define r where "r = traceback_local (bases seq1) (bases seq2) (traceback st) (max_i st) (max_j st)"
  obtain r1 r2 bi bj where tb: "r = (r1, r2, bi, bj)"
    by (cases r) auto
  have "length r1 = length r2"
    using tb unfolding r_def traceback_local_def
    by (rule traceback_local_loop_length [of "[]" "[]", OF refl])
  then have "with_positions r1 r2 (max_score st) bi (max_i st) bj (max_j st) LOCAL =
      Inr \<lparr>aligned_seq1 = r1, aligned_seq2 = r2, score = max_score st, start1 = bi,
           end1 = max_i st, start2 = bj, end2 = max_j st, alignment_type = LOCAL\<rparr>"
    by (simp add: with_positions_def Alignment_init_def)
  then have "smith_waterman seq1 seq2 scoring =
      Inr \<lparr>aligned_seq1 = r1, aligned_seq2 = r2, score = max_score st, start1 = bi,
           end1 = max_i st, start2 = bj, end2 = max_j st, alignment_type = LOCAL\<rparr>"
    unfolding smith_waterman_unfold [OF assms] Let_def st_def [symmetric] r_def [symmetric] tb
    by simp
  then show ?thesis by (simp add: st_def)
qed

text \<open>
  Claim C1. For non-empty sequences and any scoring (or the default), \<^verbatim>\<open>smith_waterman\<close>
  returns an alignment and \<^verbatim>\<open>alignment_score_only\<close> returns exactly its score.
\<close>

theorem score_only_equals_smith_waterman:
  "bases seq1 \<noteq> [] \<Longrightarrow> bases seq2 \<noteq> [] \<Longrightarrow>
   \<exists>a. smith_waterman seq1 seq2 scoring = Inr a \<and>
       alignment_score_only seq1 seq2 scoring = Inr (score a)"
proof -
  assume ne: "bases seq1 \<noteq> []" "bases seq2 \<noteq> []"
  from smith_waterman_result [OF ne, of scoring]
  obtain a where a: "smith_waterman seq1 seq2 scoring = Inr a"
    and sc: "score a = max_score (sw_fill (scoring_or_default scoring) (bases seq1) (bases seq2))"
    by blast
  have "alignment_score_only seq1 seq2 scoring =
      Inr (snd (snd (fold (so_row (scoring_or_default scoring) (bases seq1) (bases seq2)
                            (length (bases seq2)))
                       [1 ..< length (bases seq1) + 1]
                       (replicate (length (bases seq2) + 1) 0,
                        replicate (length (bases seq2) + 1) 0, 0))))"
    using ne by (simp add: alignment_score_only_def Sequence_len_def Let_def split: prod.splits)
  also have "\<dots> = Inr (score a)"
    by (simp only: sw_so_fill sc sw_fill_def Let_def)
  finally show ?thesis using a by blast
qed

theorem score_only_equals_smith_waterman_witness:
  "smith_waterman
     \<lparr>bases = ''ACT'', seq_id = None, description = None, seq_type = DNA, validated = True\<rparr>
     \<lparr>bases = ''AGA'', seq_id = None, description = None, seq_type = DNA, validated = True\<rparr>
     None =
     Inr \<lparr>aligned_seq1 = ''A'', aligned_seq2 = ''A'', score = 2, start1 = 0, end1 = 1,
          start2 = 0, end2 = 1, alignment_type = LOCAL\<rparr> \<and>
   alignment_score_only
     \<lparr>bases = ''ACT'', seq_id = None, description = None, seq_type = DNA, validated = True\<rparr>
     \<lparr>bases = ''AGA'', seq_id = None, description = None, seq_type = DNA, validated = True\<rparr>
     None = Inr 2"
proof -
  have sw: "smith_waterman
     \<lparr>bases = ''ACT'', seq_id = None, description = None, seq_type = DNA, validated = True\<rparr>
     \<lparr>bases = ''AGA'', seq_id = None, description = None, seq_type = DNA, validated = True\<rparr>
     None =
     Inr \<lparr>aligned_seq1 = ''A'', aligned_seq2 = ''A'', score = 2, start1 = 0, end1 = 1,
          start2 = 0, end2 = 1, alignment_type = LOCAL\<rparr>"
    by code_simp
  show ?thesis
    using score_only_equals_smith_waterman [of
     "\<lparr>bases = ''ACT'', seq_id = None, description = None, seq_type = DNA, validated = True\<rparr>"
     "\<lparr>bases = ''AGA'', seq_id = None, description = None, seq_type = DNA, validated = True\<rparr>"
     None]
    by (simp add: sw)
qed

subsection \<open>Matrices as lists of rows\<close>

lemma nested_fold_invariant:
  assumes init: "P 1 0 s"
    and cell: "\<And>i j s. 1 \<le> i \<Longrightarrow> i \<le> m \<Longrightarrow> j < n \<Longrightarrow> P i j s \<Longrightarrow> P i (Suc j) (c i (Suc j) s)"
    and row: "\<And>i s. 1 \<le> i \<Longrightarrow> i \<le> m \<Longrightarrow> P i n s \<Longrightarrow> P (Suc i) 0 s"
  shows "P (Suc m) 0 (fold (\<lambda>i. fold (c i) [1 ..< n + 1]) [1 ..< m + 1] s)"
proof -
  have inner: "P (Suc i) 0 (fold (c i) [1 ..< n + 1] s)" if i: "1 \<le> i" "i < m + 1" and P: "P i 0 s" for i s
  proof -
    have "P i (Suc n - 1) (fold (c i) [1 ..< Suc n] s)"
    proof (rule fold_upt_invariant [where P = "\<lambda>j s. P i (j - 1) s"])
      show "P i (1 - 1) s" using P by simp
      show "1 \<le> Suc n" by simp
      fix k s assume k: "1 \<le> k" "k < Suc n" and Pk: "P i (k - 1) s"
      have "P i (Suc (k - 1)) (c i (Suc (k - 1)) s)"
        using i k Pk by (intro cell) simp_all
      then show "P i (Suc k - 1) (c i k s)" using k by simp
    qed
    then have "P i n (fold (c i) [1 ..< n + 1] s)" by simp
    then show ?thesis using i by (intro row) simp_all
  qed
  have "P (m + 1) 0 (fold (\<lambda>i. fold (c i) [1 ..< n + 1]) [1 ..< m + 1] s)"
  proof (rule fold_upt_invariant [where P = "\<lambda>i s. P i 0 s"])
    show "P 1 0 s" by (rule init)
    show "1 \<le> m + 1" by simp
    fix k s assume "1 \<le> k" "k < m + 1" "P k 0 s"
    then show "P (Suc k) 0 (fold (c k) [1 ..< n + 1] s)" by (rule inner)
  qed
  then show ?thesis by simp
qed

lemma nth_mat_update:
  "i < length M \<Longrightarrow> j < length (M ! i) \<Longrightarrow>
   M[i := (M ! i)[j := v]] ! a ! b = (if a = i \<and> b = j then v else M ! a ! b)"
  by (cases "a = i") auto

lemma mat_ok_update: "mat_ok m n M \<Longrightarrow> mat_ok m n (M[i := (M ! i)[j := v]])"
  by (cases "i < length M") (auto simp: mat_ok_def nth_list_update)

lemma mat_ok_replicate: "mat_ok m n (replicate (m + 1) (replicate (n + 1) x))"
  by (simp add: mat_ok_def del: replicate_Suc)

lemma mat_ok_fold:
  "mat_ok m n M \<Longrightarrow> (\<And>k M. mat_ok m n M \<Longrightarrow> mat_ok m n (f k M)) \<Longrightarrow> mat_ok m n (fold f ks M)"
  by (induction ks arbitrary: M) simp_all

lemma mat_ok_nth:
  "mat_ok m n M \<Longrightarrow> i \<le> m \<Longrightarrow> j \<le> n \<Longrightarrow>
   M[i := (M ! i)[j := v]] ! a ! b = (if a = i \<and> b = j then v else M ! a ! b)"
  by (rule nth_mat_update) (simp_all add: mat_ok_def)

subsection \<open>The Needleman-Wunsch traceback matrix\<close>

lemma mat_ok_nw_init_tb: "mat_ok m n (nw_init_tb m n)"
  unfolding nw_init_tb_def Let_def
  by (intro mat_ok_fold mat_ok_update mat_ok_replicate)

lemma snd_nw_choose: "snd (nw_choose d u l) \<noteq> STOP"
  by (simp add: nw_choose_def take_if_greater_def)

lemma nw_cell_tb:
  "\<exists>d. d \<noteq> STOP \<and> snd (nw_cell sc s1 s2 i j st) = (snd st)[i := (snd st ! i)[j := d]]"
proof -
  obtain H tb where st: "st = (H, tb)" by (cases st)
  show ?thesis
    unfolding st nw_cell_def Let_def using snd_nw_choose
    by (auto split: prod.splits) (metis snd_conv)
qed

lemma nw_tb_inv_cell:
  assumes i: "1 \<le> i" "i \<le> m" and j: "j < n" and inv: "nw_tb_inv m n i j (snd st)"
  shows "nw_tb_inv m n i (Suc j) (snd (nw_cell sc s1 s2 i (Suc j) st))"
proof -
  obtain d where d: "d \<noteq> STOP"
    and tb: "snd (nw_cell sc s1 s2 i (Suc j) st) = (snd st)[i := (snd st ! i)[Suc j := d]]"
    using nw_cell_tb by blast
  have ok: "mat_ok m n (snd st)" using inv by (simp add: nw_tb_inv_def)
  have nth: "\<And>a b. (snd st)[i := (snd st ! i)[Suc j := d]] ! a ! b =
      (if a = i \<and> b = Suc j then d else snd st ! a ! b)"
    using i j by (intro mat_ok_nth [OF ok]) auto
  have "(snd st)[i := (snd st ! i)[Suc j := d]] ! a ! b \<noteq> STOP"
    if "a \<le> m" "b \<le> n" "filled i (Suc j) a b" for a b
  proof (cases "a = i \<and> b = Suc j")
    case True
    then show ?thesis using d by (simp add: nth)
  next
    case False
    then have "filled i j a b" using that(3) by (auto simp: filled_def)
    then have "snd st ! a ! b \<noteq> STOP" using inv that by (simp add: nw_tb_inv_def)
    then show ?thesis using False by (auto simp: nth)
  qed
  then show ?thesis
    unfolding tb nw_tb_inv_def using ok by (simp add: mat_ok_update)
qed

lemma nw_tb_inv_row: "nw_tb_inv m n i n tb \<Longrightarrow> nw_tb_inv m n (Suc i) 0 tb"
  by (auto simp: nw_tb_inv_def filled_def less_Suc_eq)

lemma nw_fill_no_STOP:
  assumes "1 \<le> a" "a \<le> length s1" "1 \<le> b" "b \<le> length s2"
  shows "snd (nw_fill sc s1 s2) ! a ! b \<noteq> STOP"
proof -
  let ?m = "length s1" and ?n = "length s2"
  have fill: "nw_fill sc s1 s2 =
      fold (\<lambda>i. fold (nw_cell sc s1 s2 i) [1 ..< ?n + 1]) [1 ..< ?m + 1]
        (nw_init_H sc ?m ?n, nw_init_tb ?m ?n)"
    by (simp only: nw_fill_def Let_def nw_row_def [abs_def])
  have "nw_tb_inv ?m ?n (Suc ?m) 0 (snd (nw_fill sc s1 s2))"
    unfolding fill
  proof (rule nested_fold_invariant [where P = "\<lambda>i j st. nw_tb_inv ?m ?n i j (snd st)"])
    show "nw_tb_inv ?m ?n 1 0 (snd (nw_init_H sc ?m ?n, nw_init_tb ?m ?n))"
      by (auto simp: nw_tb_inv_def mat_ok_nw_init_tb filled_def)
  qed (simp_all add: nw_tb_inv_cell nw_tb_inv_row)
  then show ?thesis
    using assms by (auto simp: nw_tb_inv_def filled_def)
qed


subsection \<open>The global traceback\<close>

lemma strip_gaps_take:
  "0 < i \<Longrightarrow> i \<le> length xs \<Longrightarrow>
   strip_gaps (take i xs) = strip_gaps (take (i - 1) xs) @ strip_gaps [xs ! (i - 1)]"
proof -
  assume i: "0 < i" "i \<le> length xs"
  then have "take i xs = take (i - 1) xs @ [xs ! (i - 1)]"
    using take_Suc_conv_app_nth [of "i - 1" xs] by simp
  then show ?thesis by (simp add: strip_gaps_def)
qed

lemma traceback_step:
  assumes "\<exists>p1 p2. r = (p1 @ c1 # a1, p2 @ c2 # a2) \<and> length p1 = length p2 \<and>
             strip_gaps p1 = x1 \<and> strip_gaps p2 = x2"
  shows "\<exists>p1 p2. r = (p1 @ a1, p2 @ a2) \<and> length p1 = length p2 \<and>
           strip_gaps p1 = x1 @ strip_gaps [c1] \<and> strip_gaps p2 = x2 @ strip_gaps [c2]"
proof -
  from assms obtain p1 p2 where r: "r = (p1 @ c1 # a1, p2 @ c2 # a2)"
    and l: "length p1 = length p2" and s: "strip_gaps p1 = x1" "strip_gaps p2 = x2"
    by blast
  have "r = ((p1 @ [c1]) @ a1, (p2 @ [c2]) @ a2)" by (simp add: r)
  moreover have "length (p1 @ [c1]) = length (p2 @ [c2])" by (simp add: l)
  moreover have "strip_gaps (p1 @ [c1]) = x1 @ strip_gaps [c1]"
    "strip_gaps (p2 @ [c2]) = x2 @ strip_gaps [c2]"
    using s by (simp_all add: strip_gaps_def)
  ultimately show ?thesis by blast
qed

lemma traceback_global_loop_strip:
  assumes nostop: "\<And>a b. 1 \<le> a \<Longrightarrow> a \<le> length seq1 \<Longrightarrow> 1 \<le> b \<Longrightarrow> b \<le> length seq2 \<Longrightarrow>
                     tb ! a ! b \<noteq> STOP"
  shows "i \<le> length seq1 \<Longrightarrow> j \<le> length seq2 \<Longrightarrow>
     \<exists>p1 p2. traceback_global_loop seq1 seq2 tb i j a1 a2 = (p1 @ a1, p2 @ a2) \<and>
        length p1 = length p2 \<and>
        strip_gaps p1 = strip_gaps (take i seq1) \<and>
        strip_gaps p2 = strip_gaps (take j seq2)"
  using nostop
proof (induction seq1 seq2 tb i j a1 a2 rule: traceback_global_loop.induct)
  case (1 seq1 seq2 tb i j a1 a2)
  note ns = "1.prems"(3)
  let ?c1 = "seq1 ! (i - 1)" and ?c2 = "seq2 ! (j - 1)" and ?gap = "CHR ''-''"
  let ?loop = "traceback_global_loop seq1 seq2 tb"
  have t1: "strip_gaps (take (i - 1) seq1) @ strip_gaps [?c1] = strip_gaps (take i seq1)" if "0 < i"
    using that "1.prems"(1) by (simp add: strip_gaps_take)
  have t2: "strip_gaps (take (j - 1) seq2) @ strip_gaps [?c2] = strip_gaps (take j seq2)" if "0 < j"
    using that "1.prems"(2) by (simp add: strip_gaps_take)
  have g: "strip_gaps [?gap] = []" by (simp add: strip_gaps_def)
  consider (fin) "i = 0" "j = 0"
    | (top) "i = 0" "0 < j"
    | (side) "0 < i" "j = 0"
    | (diag) "0 < i" "0 < j" "tb ! i ! j = DIAGONAL"
    | (up) "0 < i" "0 < j" "tb ! i ! j = UP"
    | (left) "0 < i" "0 < j" "tb ! i ! j = LEFT"
  proof -
    have "tb ! i ! j \<noteq> STOP" if "0 < i" "0 < j"
      using that ns [of i j] "1.prems"(1,2) by simp
    then show ?thesis
      using that by (cases "tb ! i ! j"; cases "i = 0"; cases "j = 0") simp_all
  qed
  then show ?case
  proof cases
    case fin
    then show ?thesis
      by (subst traceback_global_loop.simps) (simp add: strip_gaps_def)
  next
    case top
    have eq: "?loop i j a1 a2 = ?loop i (j - 1) (?gap # a1) (?c2 # a2)"
      using top by (subst traceback_global_loop.simps) simp
    have "\<exists>p1 p2. ?loop i (j - 1) (?gap # a1) (?c2 # a2) = (p1 @ ?gap # a1, p2 @ ?c2 # a2) \<and>
            length p1 = length p2 \<and> strip_gaps p1 = strip_gaps (take i seq1) \<and>
            strip_gaps p2 = strip_gaps (take (j - 1) seq2)"
      using top "1.prems"(1,2) ns by (intro "1.IH"(1)) simp_all
    from traceback_step [OF this] show ?thesis
      unfolding eq using t2 top by (simp add: g)
  next
    case side
    have eq: "?loop i j a1 a2 = ?loop (i - 1) j (?c1 # a1) (?gap # a2)"
      using side by (subst traceback_global_loop.simps) simp
    have "\<exists>p1 p2. ?loop (i - 1) j (?c1 # a1) (?gap # a2) = (p1 @ ?c1 # a1, p2 @ ?gap # a2) \<and>
            length p1 = length p2 \<and> strip_gaps p1 = strip_gaps (take (i - 1) seq1) \<and>
            strip_gaps p2 = strip_gaps (take j seq2)"
      using side "1.prems"(1,2) ns by (intro "1.IH"(2)) simp_all
    from traceback_step [OF this] show ?thesis
      unfolding eq using t1 side by (simp add: g)
  next
    case diag
    have eq: "?loop i j a1 a2 = ?loop (i - 1) (j - 1) (?c1 # a1) (?c2 # a2)"
      using diag by (subst traceback_global_loop.simps) simp
    have "\<exists>p1 p2. ?loop (i - 1) (j - 1) (?c1 # a1) (?c2 # a2) = (p1 @ ?c1 # a1, p2 @ ?c2 # a2) \<and>
            length p1 = length p2 \<and> strip_gaps p1 = strip_gaps (take (i - 1) seq1) \<and>
            strip_gaps p2 = strip_gaps (take (j - 1) seq2)"
      using diag "1.prems"(1,2) ns by (intro "1.IH"(3)) simp_all
    from traceback_step [OF this] show ?thesis
      unfolding eq using t1 t2 diag by simp
  next
    case up
    have eq: "?loop i j a1 a2 = ?loop (i - 1) j (?c1 # a1) (?gap # a2)"
      using up by (subst traceback_global_loop.simps) simp
    have "\<exists>p1 p2. ?loop (i - 1) j (?c1 # a1) (?gap # a2) = (p1 @ ?c1 # a1, p2 @ ?gap # a2) \<and>
            length p1 = length p2 \<and> strip_gaps p1 = strip_gaps (take (i - 1) seq1) \<and>
            strip_gaps p2 = strip_gaps (take j seq2)"
      using up "1.prems"(1,2) ns by (intro "1.IH"(4)) simp_all
    from traceback_step [OF this] show ?thesis
      unfolding eq using t1 up by (simp add: g)
  next
    case left
    have eq: "?loop i j a1 a2 = ?loop i (j - 1) (?gap # a1) (?c2 # a2)"
      using left by (subst traceback_global_loop.simps) simp
    have "\<exists>p1 p2. ?loop i (j - 1) (?gap # a1) (?c2 # a2) = (p1 @ ?gap # a1, p2 @ ?c2 # a2) \<and>
            length p1 = length p2 \<and> strip_gaps p1 = strip_gaps (take i seq1) \<and>
            strip_gaps p2 = strip_gaps (take (j - 1) seq2)"
      using left "1.prems"(1,2) ns by (intro "1.IH"(5)) simp_all
    from traceback_step [OF this] show ?thesis
      unfolding eq using t2 left by (simp add: g)
  qed
qed


lemma needleman_wunsch_result:
  assumes ne: "bases seq1 \<noteq> []" "bases seq2 \<noteq> []"
  shows "\<exists>a. needleman_wunsch seq1 seq2 scoring = Inr a \<and>
           length (aligned_seq1 a) = length (aligned_seq2 a) \<and>
           strip_gaps (aligned_seq1 a) = strip_gaps (bases seq1) \<and>
           strip_gaps (aligned_seq2 a) = strip_gaps (bases seq2)"
proof -
  define sc where "sc = scoring_or_default scoring"
  define H where "H = fst (nw_fill sc (bases seq1) (bases seq2))"
  define tb where "tb = snd (nw_fill sc (bases seq1) (bases seq2))"
  let ?m = "length (bases seq1)" and ?n = "length (bases seq2)"
  have fill: "nw_fill sc (bases seq1) (bases seq2) = (H, tb)"
    by (simp add: H_def tb_def)
  have "\<exists>p1 p2. traceback_global_loop (bases seq1) (bases seq2) tb ?m ?n [] [] = (p1 @ [], p2 @ []) \<and>
          length p1 = length p2 \<and>
          strip_gaps p1 = strip_gaps (take ?m (bases seq1)) \<and>
          strip_gaps p2 = strip_gaps (take ?n (bases seq2))"
  proof (rule traceback_global_loop_strip)
    fix a b assume "1 \<le> a" "a \<le> ?m" "1 \<le> b" "b \<le> ?n"
    then show "tb ! a ! b \<noteq> STOP" unfolding tb_def by (rule nw_fill_no_STOP)
  qed simp_all
  then obtain p1 p2 where
    tr: "traceback_global (bases seq1) (bases seq2) tb ?m ?n = (p1, p2)"
    and l: "length p1 = length p2"
    and s: "strip_gaps p1 = strip_gaps (bases seq1)" "strip_gaps p2 = strip_gaps (bases seq2)"
    by (auto simp: traceback_global_def)
  have "needleman_wunsch seq1 seq2 scoring = Alignment_new p1 p2 (H ! ?m ! ?n) GLOBAL"
    using ne unfolding needleman_wunsch_def Sequence_len_def Let_def sc_def [symmetric] fill
    by (simp add: tr)
  then show ?thesis
    using l s by (simp add: Alignment_new_def Alignment_init_def)
qed





lemma count_gaps: "count_list xs (CHR ''-'') + length (strip_gaps xs) = length xs"
  by (induction xs) (simp_all add: strip_gaps_def)


lemma strip_gaps_id: "CHR ''-'' \<notin> set xs \<Longrightarrow> strip_gaps xs = xs"
  by (induction xs) (auto simp: strip_gaps_def)

lemma valid_no_gap: "is_valid s \<Longrightarrow> CHR ''-'' \<notin> set (bases s)"
proof -
  assume v: "is_valid s"
  have "CHR ''-'' \<notin> VALID_DNA_BASES \<union> VALID_RNA_BASES"
    by (simp add: VALID_DNA_BASES_def VALID_RNA_BASES_def)
  then have "CHR ''-'' \<notin> valid_bases_of (seq_type s)"
    using valid_bases_of_subset by blast
  then show ?thesis using v by (auto simp: is_valid_def)
qed

text \<open>
  Claim C4. For non-empty sequences and any scoring, \<^verbatim>\<open>needleman_wunsch\<close> returns an alignment
  whose two rows have the same length; when the inputs are \<^verbatim>\<open>ATCGATCG\<close> and \<^verbatim>\<open>ATCG\<close>, the
  two rows hold at least 4 gap symbols in total.
\<close>

theorem needleman_wunsch_equal_length:
  "bases seq1 \<noteq> [] \<Longrightarrow> bases seq2 \<noteq> [] \<Longrightarrow>
   \<exists>a. needleman_wunsch seq1 seq2 scoring = Inr a \<and>
       length (aligned_seq1 a) = length (aligned_seq2 a) \<and>
       (bases seq1 = ''ATCGATCG'' \<and> bases seq2 = ''ATCG'' \<longrightarrow> 4 \<le> total_gaps a)"
proof -
  assume ne: "bases seq1 \<noteq> []" "bases seq2 \<noteq> []"
  from needleman_wunsch_result [OF ne, of scoring]
  obtain a where a: "needleman_wunsch seq1 seq2 scoring = Inr a"
    and l: "length (aligned_seq1 a) = length (aligned_seq2 a)"
    and s: "strip_gaps (aligned_seq1 a) = strip_gaps (bases seq1)"
           "strip_gaps (aligned_seq2 a) = strip_gaps (bases seq2)"
    by blast
  have "4 \<le> total_gaps a" if b: "bases seq1 = ''ATCGATCG''" "bases seq2 = ''ATCG''"
  proof -
    have "length (strip_gaps (aligned_seq1 a)) = 8" "length (strip_gaps (aligned_seq2 a)) = 4"
      unfolding s b by (simp_all add: strip_gaps_def)
    then have "gaps_seq1 a + 8 = length (aligned_seq1 a)" "gaps_seq2 a + 4 = length (aligned_seq2 a)"
      using count_gaps [of "aligned_seq1 a"] count_gaps [of "aligned_seq2 a"]
      by (simp_all add: gaps_seq1_def gaps_seq2_def)
    then show ?thesis using l by (simp add: total_gaps_def)
  qed
  with a l show ?thesis by blast
qed


theorem needleman_wunsch_equal_length_witness:
  "needleman_wunsch
     \<lparr>bases = ''ATCGATCG'', seq_id = None, description = None, seq_type = DNA, validated = True\<rparr>
     \<lparr>bases = ''ATCG'', seq_id = None, description = None, seq_type = DNA, validated = True\<rparr>
     None =
     Inr \<lparr>aligned_seq1 = ''ATCGATCG'', aligned_seq2 = ''----ATCG'', score = 0, start1 = 0,
          end1 = 8, start2 = 0, end2 = 8, alignment_type = GLOBAL\<rparr> \<and>
   4 \<le> total_gaps \<lparr>aligned_seq1 = ''ATCGATCG'', aligned_seq2 = ''----ATCG'', score = 0,
          start1 = 0, end1 = 8, start2 = 0, end2 = 8, alignment_type = GLOBAL\<rparr>"
proof -
  have nw: "needleman_wunsch
     \<lparr>bases = ''ATCGATCG'', seq_id = None, description = None, seq_type = DNA, validated = True\<rparr>
     \<lparr>bases = ''ATCG'', seq_id = None, description = None, seq_type = DNA, validated = True\<rparr>
     None =
     Inr \<lparr>aligned_seq1 = ''ATCGATCG'', aligned_seq2 = ''----ATCG'', score = 0, start1 = 0,
          end1 = 8, start2 = 0, end2 = 8, alignment_type = GLOBAL\<rparr>"
    by code_simp
  show ?thesis
    using needleman_wunsch_equal_length [of
     "\<lparr>bases = ''ATCGATCG'', seq_id = None, description = None, seq_type = DNA, validated = True\<rparr>"
     "\<lparr>bases = ''ATCG'', seq_id = None, description = None, seq_type = DNA, validated = True\<rparr>"
     None]
    by (simp add: nw)
qed



text \<open>
  Claim C10. For valid non-empty sequences, the global alignment consumes both inputs:
  deleting the gap symbols from the two aligned rows gives back the bases of the two
  sequences. No interior cell of the traceback matrix holds \<open>STOP\<close> after the fill, so the
  \<^verbatim>\<open>break\<close> of the traceback is never taken.
\<close>

theorem needleman_wunsch_consumes_inputs:
  "is_valid seq1 \<Longrightarrow> is_valid seq2 \<Longrightarrow> bases seq1 \<noteq> [] \<Longrightarrow> bases seq2 \<noteq> [] \<Longrightarrow>
   (\<exists>a. needleman_wunsch seq1 seq2 scoring = Inr a \<and>
       strip_gaps (aligned_seq1 a) = bases seq1 \<and>
       strip_gaps (aligned_seq2 a) = bases seq2) \<and>
   (\<forall>i j. 1 \<le> i \<and> i \<le> length (bases seq1) \<and> 1 \<le> j \<and> j \<le> length (bases seq2) \<longrightarrow>
      snd (nw_fill (scoring_or_default scoring) (bases seq1) (bases seq2)) ! i ! j \<noteq> STOP)"
proof -
  assume v: "is_valid seq1" "is_valid seq2" and ne: "bases seq1 \<noteq> []" "bases seq2 \<noteq> []"
  have "strip_gaps (bases seq1) = bases seq1" "strip_gaps (bases seq2) = bases seq2"
    using v by (simp_all add: strip_gaps_id valid_no_gap)
  then show ?thesis
    using needleman_wunsch_result [OF ne, of scoring] by (auto simp: nw_fill_no_STOP)
qed


theorem needleman_wunsch_consumes_inputs_witness:
  "\<exists>a. needleman_wunsch
     \<lparr>bases = ''GATTACA'', seq_id = None, description = None, seq_type = DNA, validated = True\<rparr>
     \<lparr>bases = ''GCAUGCU'', seq_id = None, description = None, seq_type = RNA, validated = True\<rparr>
     None = Inr a \<and>
     strip_gaps (aligned_seq1 a) = ''GATTACA'' \<and> strip_gaps (aligned_seq2 a) = ''GCAUGCU''"
proof -
  have v: "is_valid \<lparr>bases = ''GATTACA'', seq_id = None, description = None, seq_type = DNA,
       validated = True\<rparr>"
     "is_valid \<lparr>bases = ''GCAUGCU'', seq_id = None, description = None, seq_type = RNA,
       validated = True\<rparr>"
    by (simp_all add: is_valid_def valid_bases_of_def VALID_DNA_BASES_def VALID_RNA_BASES_def)
  show ?thesis
    using needleman_wunsch_consumes_inputs [OF v, where scoring = None] by auto
qed

subsection \<open>The Smith-Waterman fill\<close>

lemma sw_cell_pos:
  "(max_i (sw_cell sc s1 s2 i j st), max_j (sw_cell sc s1 s2 i j st)) =
     (if fst (sw_best sc s1 s2 i j (H_matrix st)) > max_score st then (i, j)
      else (max_i st, max_j st))"
  by (simp add: sw_cell_def sw_best_def Let_def split: prod.splits)

lemma sw_best_update:
  assumes ok: "mat_ok m n H" and i: "1 \<le> i" "i \<le> m" and j: "j < n"
    and a: "a \<le> m" "b \<le> n" and f: "filled i (Suc j) a b"
  shows "sw_best sc s1 s2 a b (H[i := (H ! i)[Suc j := v]]) = sw_best sc s1 s2 a b H"
proof -
  have nth: "\<And>x y. H[i := (H ! i)[Suc j := v]] ! x ! y =
      (if x = i \<and> y = Suc j then v else H ! x ! y)"
    using ok i j by (intro mat_ok_nth) auto
  have "a - 1 \<noteq> i" "a = i \<longrightarrow> b - 1 \<noteq> Suc j"
    using f by (auto simp: filled_def)
  then show ?thesis
    by (auto simp: sw_best_def nth)
qed

lemma sw_inv_cell:
  assumes i: "1 \<le> i" "i \<le> length s1" and j: "j < length s2" and inv: "sw_inv sc s1 s2 i j st"
  shows "sw_inv sc s1 s2 i (Suc j) (sw_cell sc s1 s2 i (Suc j) st)"
proof -
  let ?m = "length s1" and ?n = "length s2"
  let ?H = "H_matrix st" and ?tb = "traceback st"
  define v where "v = fst (sw_best sc s1 s2 i (Suc j) ?H)"
  define d where "d = snd (sw_best sc s1 s2 i (Suc j) ?H)"
  let ?st = "sw_cell sc s1 s2 i (Suc j) st"
  let ?H' = "?H[i := (?H ! i)[Suc j := v]]" and ?tb' = "?tb[i := (?tb ! i)[Suc j := d]]"
  have H': "H_matrix ?st = ?H'" by (simp add: sw_cell_H v_def)
  have tb': "traceback ?st = ?tb'" by (simp add: sw_cell_tb d_def)
  have mx': "max_score ?st = max (max_score st) v" by (simp add: sw_cell_max v_def)
  have pos': "(max_i ?st, max_j ?st) = (if v > max_score st then (i, Suc j) else (max_i st, max_j st))"
    by (simp add: sw_cell_pos v_def)
  have okH: "mat_ok ?m ?n ?H" and oktb: "mat_ok ?m ?n ?tb"
    using inv by (simp_all add: sw_inv_def)
  have cells: "\<And>a b. a \<le> ?m \<Longrightarrow> b \<le> ?n \<Longrightarrow>
      (if filled i j a b then (?H ! a ! b, ?tb ! a ! b) = sw_best sc s1 s2 a b ?H
       else ?H ! a ! b = 0 \<and> ?tb ! a ! b = STOP)"
    using inv by (simp add: sw_inv_def)
  have bound: "\<And>a b. a \<le> ?m \<Longrightarrow> b \<le> ?n \<Longrightarrow> ?H ! a ! b \<le> max_score st"
    using inv by (simp add: sw_inv_def)
  have pos: "max_i st \<le> ?m" "max_j st \<le> ?n" "max_i st = 0 \<or> filled i j (max_i st) (max_j st)"
    "?H ! max_i st ! max_j st = max_score st"
    using inv by (simp_all add: sw_inv_def)
  have nthH: "\<And>a b. ?H' ! a ! b = (if a = i \<and> b = Suc j then v else ?H ! a ! b)"
    using i j by (intro mat_ok_nth [OF okH]) auto
  have nthtb: "\<And>a b. ?tb' ! a ! b = (if a = i \<and> b = Suc j then d else ?tb ! a ! b)"
    using i j by (intro mat_ok_nth [OF oktb]) auto
  have best: "\<And>a b. a \<le> ?m \<Longrightarrow> b \<le> ?n \<Longrightarrow> filled i (Suc j) a b \<Longrightarrow>
      sw_best sc s1 s2 a b ?H' = sw_best sc s1 s2 a b ?H"
    using okH i j by (rule sw_best_update)
  have here: "filled i (Suc j) i (Suc j)" using i by (simp add: filled_def)
  have vd: "sw_best sc s1 s2 i (Suc j) ?H = (v, d)" by (simp add: v_def d_def)
  have c1: "(if filled i (Suc j) a b then (?H' ! a ! b, ?tb' ! a ! b) = sw_best sc s1 s2 a b ?H'
       else ?H' ! a ! b = 0 \<and> ?tb' ! a ! b = STOP)" if ab: "a \<le> ?m" "b \<le> ?n" for a b
  proof (cases "a = i \<and> b = Suc j")
    case True
    then show ?thesis using here best [OF ab] by (simp add: nthH nthtb vd)
  next
    case False
    then have same: "filled i (Suc j) a b = filled i j a b" by (auto simp: filled_def)
    show ?thesis
    proof (cases "filled i j a b")
      case True
      then show ?thesis
        using False cells [OF ab] best [OF ab] same by (auto simp: nthH nthtb)
    next
      case nf: False
      then show ?thesis
        using False cells [OF ab] same by (auto simp: nthH nthtb)
    qed
  qed
  have c2: "?H' ! a ! b \<le> max (max_score st) v" if "a \<le> ?m" "b \<le> ?n" for a b
    using bound [OF that] by (auto simp: nthH)
  have c3: "max_i ?st \<le> ?m \<and> max_j ?st \<le> ?n \<and>
      (max_i ?st = 0 \<or> filled i (Suc j) (max_i ?st) (max_j ?st)) \<and>
      ?H' ! max_i ?st ! max_j ?st = max (max_score st) v"
  proof (cases "v > max_score st")
    case True
    then have "max_i ?st = i" "max_j ?st = Suc j" using pos' by simp_all
    then show ?thesis using True i j here by (simp add: nthH)
  next
    case False
    then have p: "max_i ?st = max_i st" "max_j ?st = max_j st" using pos' by simp_all
    have ne: "\<not> (max_i st = i \<and> max_j st = Suc j)"
      using pos(3) i by (auto simp: filled_def)
    have "max_i st = 0 \<or> filled i (Suc j) (max_i st) (max_j st)"
      using pos(3) by (auto simp: filled_def)
    then show ?thesis
      using False pos ne unfolding p by (auto simp: nthH)
  qed
  show ?thesis
    unfolding sw_inv_def H' tb' mx'
    using c1 c2 c3 okH oktb by (simp add: mat_ok_update)
qed

lemma sw_inv_row: "sw_inv sc s1 s2 i (length s2) st \<Longrightarrow> sw_inv sc s1 s2 (Suc i) 0 st"
proof -
  have "\<And>a b. b \<le> length s2 \<Longrightarrow> filled (Suc i) 0 a b = filled i (length s2) a b"
    by (auto simp: filled_def)
  then show "sw_inv sc s1 s2 i (length s2) st \<Longrightarrow> sw_inv sc s1 s2 (Suc i) 0 st"
    unfolding sw_inv_def by simp
qed

lemma sw_inv_init: "sw_inv sc s1 s2 1 0 (sw_init (length s1) (length s2))"
proof -
  let ?m = "length s1" and ?n = "length s2"
  have nf: "\<And>a b. \<not> filled 1 0 a b" by (auto simp: filled_def)
  have H0: "H_matrix (sw_init ?m ?n) = replicate (?m + 1) (replicate (?n + 1) 0)"
    and tb0: "traceback (sw_init ?m ?n) = replicate (?m + 1) (replicate (?n + 1) STOP)"
    and mx: "max_score (sw_init ?m ?n) = 0" "max_i (sw_init ?m ?n) = 0" "max_j (sw_init ?m ?n) = 0"
    by (simp_all add: sw_init_def)
  have ok: "mat_ok ?m ?n (H_matrix (sw_init ?m ?n))" "mat_ok ?m ?n (traceback (sw_init ?m ?n))"
    unfolding H0 tb0 by (rule mat_ok_replicate)+
  have z: "\<And>a b. a \<le> ?m \<Longrightarrow> b \<le> ?n \<Longrightarrow> H_matrix (sw_init ?m ?n) ! a ! b = 0"
    unfolding H0 by (simp del: replicate_Suc)
  have t: "\<And>a b. a \<le> ?m \<Longrightarrow> b \<le> ?n \<Longrightarrow> traceback (sw_init ?m ?n) ! a ! b = STOP"
    unfolding tb0 by (simp del: replicate_Suc)
  show ?thesis
    unfolding sw_inv_def using ok z t nf by (simp add: mx)
qed

lemma sw_fill_inv: "sw_inv sc s1 s2 (Suc (length s1)) 0 (sw_fill sc s1 s2)"
proof -
  let ?m = "length s1" and ?n = "length s2"
  have fill: "sw_fill sc s1 s2 =
      fold (\<lambda>i. fold (sw_cell sc s1 s2 i) [1 ..< ?n + 1]) [1 ..< ?m + 1] (sw_init ?m ?n)"
    by (simp only: sw_fill_def Let_def sw_row_def [abs_def])
  show ?thesis
    unfolding fill
  proof (rule nested_fold_invariant [where P = "sw_inv sc s1 s2"])
    show "sw_inv sc s1 s2 1 0 (sw_init ?m ?n)" by (rule sw_inv_init)
  qed (simp_all add: sw_inv_cell sw_inv_row)
qed



lemma sw_fill_cell:
  assumes "1 \<le> i" "i \<le> length s1" "1 \<le> j" "j \<le> length s2"
  shows "(H_matrix (sw_fill sc s1 s2) ! i ! j, traceback (sw_fill sc s1 s2) ! i ! j) =
           sw_best sc s1 s2 i j (H_matrix (sw_fill sc s1 s2))"
proof -
  have "filled (Suc (length s1)) 0 i j" using assms by (simp add: filled_def)
  then show ?thesis
    using sw_fill_inv [of sc s1 s2] assms unfolding sw_inv_def by simp
qed

lemma sw_fill_border:
  assumes "a \<le> length s1" "b \<le> length s2" "a = 0 \<or> b = 0"
  shows "H_matrix (sw_fill sc s1 s2) ! a ! b = 0"
proof -
  have "\<not> filled (Suc (length s1)) 0 a b" using assms by (auto simp: filled_def)
  then show ?thesis
    using sw_fill_inv [of sc s1 s2] assms unfolding sw_inv_def by simp
qed

text \<open>
  Claim C2, as the code has it. After the fill, every interior cell holds
  \<open>max(0, diag, up, left)\<close> of its three candidates, and the recorded direction is \<open>STOP\<close>
  when that maximum is \<open>0\<close>; otherwise it is \<open>DIAGONAL\<close> if the diagonal candidate equals
  the maximum, else \<open>UP\<close> if the upper one does, else \<open>LEFT\<close>. The zero floor is tested
  first, so it wins every tie: the order is \<open>STOP\<close>, \<open>DIAGONAL\<close>, \<open>UP\<close>, \<open>LEFT\<close>.
\<close>

theorem sw_tie_break:
  "1 \<le> i \<Longrightarrow> i \<le> length s1 \<Longrightarrow> 1 \<le> j \<Longrightarrow> j \<le> length s2 \<Longrightarrow>
   (let st = sw_fill sc s1 s2; H = H_matrix st;
        diag = H ! (i - 1) ! (j - 1) + ScoringMatrix_score sc (s1 ! (i - 1)) (s2 ! (j - 1));
        up = H ! (i - 1) ! j + gap_penalty sc;
        left = H ! i ! (j - 1) + gap_penalty sc;
        best = max 0 (max diag (max up left))
    in H ! i ! j = best \<and>
       traceback st ! i ! j =
         (if best = 0 then STOP else if diag = best then DIAGONAL
          else if up = best then UP else LEFT))"
proof -
  assume a: "1 \<le> i" "i \<le> length s1" "1 \<le> j" "j \<le> length s2"
  let ?st = "sw_fill sc s1 s2"
  let ?H = "H_matrix ?st"
  let ?diag = "?H ! (i - 1) ! (j - 1) + ScoringMatrix_score sc (s1 ! (i - 1)) (s2 ! (j - 1))"
  let ?up = "?H ! (i - 1) ! j + gap_penalty sc"
  let ?left = "?H ! i ! (j - 1) + gap_penalty sc"
  let ?best = "max 0 (max ?diag (max ?up ?left))"
  note c = sw_fill_cell [OF a, of sc]
  have "fst (?H ! i ! j, traceback ?st ! i ! j) = fst (sw_best sc s1 s2 i j ?H)"
    by (rule arg_cong [OF c])
  then have h: "?H ! i ! j = ?best"
    unfolding sw_best_def fst_sw_choose fst_conv .
  have "snd (?H ! i ! j, traceback ?st ! i ! j) = snd (sw_best sc s1 s2 i j ?H)"
    by (rule arg_cong [OF c])
  then have t: "traceback ?st ! i ! j =
      (if ?best = 0 then STOP else if ?diag = ?best then DIAGONAL
       else if ?up = ?best then UP else LEFT)"
    unfolding sw_best_def snd_sw_choose snd_conv .
  show ?thesis
    unfolding Let_def by (rule conjI [OF h t])
qed

theorem sw_tie_break_witness:
  "(let st = sw_fill default_dna ''ACT'' ''AGA''; H = H_matrix st;
        diag = H ! (1 - 1) ! (1 - 1) +
          ScoringMatrix_score default_dna (''ACT'' ! (1 - 1)) (''AGA'' ! (1 - 1));
        up = H ! (1 - 1) ! 1 + gap_penalty default_dna;
        left = H ! 1 ! (1 - 1) + gap_penalty default_dna;
        best = max 0 (max diag (max up left))
    in H ! 1 ! 1 = best \<and>
       traceback st ! 1 ! 1 =
         (if best = 0 then STOP else if diag = best then DIAGONAL
          else if up = best then UP else LEFT)) \<and>
   H_matrix (sw_fill default_dna ''ACT'' ''AGA'') ! 1 ! 1 = 2 \<and>
   traceback (sw_fill default_dna ''ACT'' ''AGA'') ! 1 ! 1 = DIAGONAL"
proof -
  have e: "H_matrix (sw_fill default_dna ''ACT'' ''AGA'') ! 1 ! 1 = 2"
    "traceback (sw_fill default_dna ''ACT'' ''AGA'') ! 1 ! 1 = DIAGONAL"
    by code_simp+
  show ?thesis
    using sw_tie_break [of 1 "''ACT''" 1 "''AGA''" default_dna] e by simp
qed

text \<open>
  The claim C2 as written puts \<open>DIAGONAL\<close> before the floor. With the default scoring, the
  cell \<open>(3, 3)\<close> for \<^verbatim>\<open>ACT\<close> against \<^verbatim>\<open>AGA\<close> has the diagonal candidate \<open>1 - 1 = 0\<close>, equal to
  the cell maximum \<open>0\<close>, and the recorded direction is \<open>STOP\<close>.
\<close>

theorem sw_tie_break_counterexample:
  "H_matrix (sw_fill default_dna ''ACT'' ''AGA'') ! 2 ! 2 +
     ScoringMatrix_score default_dna (''ACT'' ! 2) (''AGA'' ! 2) = 0 \<and>
   H_matrix (sw_fill default_dna ''ACT'' ''AGA'') ! 3 ! 3 = 0 \<and>
   traceback (sw_fill default_dna ''ACT'' ''AGA'') ! 3 ! 3 = STOP"
  by code_simp

subsection \<open>Bounds on local scores\<close>

text \<open>The default matrix is what the constructor returns, and the constructor checks the signs.\<close>

lemma default_dna_init: "ScoringMatrix_init 2 (- 1) (- 2) (- 1) = Inr default_dna"
  by (simp add: ScoringMatrix_init_def default_dna_def)

lemma scoring_ok_init: "ScoringMatrix_init ms mp go ge = Inr sc \<Longrightarrow> scoring_ok sc"
  by (auto simp: ScoringMatrix_init_def scoring_ok_def split: if_splits)

lemma score_le_match: "scoring_ok sc \<Longrightarrow> ScoringMatrix_score sc x y \<le> match_score sc"
  by (simp add: scoring_ok_def ScoringMatrix_score_def)

lemma sw_fill_H:
  assumes "1 \<le> a" "a \<le> length s1" "1 \<le> b" "b \<le> length s2"
  shows "H_matrix (sw_fill sc s1 s2) ! a ! b =
     max 0 (max (H_matrix (sw_fill sc s1 s2) ! (a - 1) ! (b - 1) +
                   ScoringMatrix_score sc (s1 ! (a - 1)) (s2 ! (b - 1)))
              (max (H_matrix (sw_fill sc s1 s2) ! (a - 1) ! b + gap_penalty sc)
                   (H_matrix (sw_fill sc s1 s2) ! a ! (b - 1) + gap_penalty sc)))"
proof -
  have "fst (H_matrix (sw_fill sc s1 s2) ! a ! b, traceback (sw_fill sc s1 s2) ! a ! b) =
      fst (sw_best sc s1 s2 a b (H_matrix (sw_fill sc s1 s2)))"
    by (rule arg_cong [OF sw_fill_cell [OF assms]])
  then show ?thesis
    unfolding sw_best_def fst_sw_choose fst_conv .
qed

lemma sw_fill_upper:
  assumes ok: "scoring_ok sc"
  shows "a \<le> length s1 \<Longrightarrow> b \<le> length s2 \<Longrightarrow>
         H_matrix (sw_fill sc s1 s2) ! a ! b \<le> match_score sc * int a"
proof (induction "a + b" arbitrary: a b rule: less_induct)
  case less
  let ?H = "H_matrix (sw_fill sc s1 s2)"
  define M where "M = match_score sc"
  have pos: "0 < M" and gap: "gap_penalty sc \<le> 0"
    using ok by (simp_all add: scoring_ok_def gap_penalty_def M_def)
  show ?case
  proof (cases "a = 0 \<or> b = 0")
    case True
    then have "?H ! a ! b = 0" using less.prems by (intro sw_fill_border) simp_all
    moreover have "0 \<le> M * int a" using pos by simp
    ultimately show ?thesis by (simp add: M_def)
  next
    case False
    then obtain a' b' where a: "a = Suc a'" and b: "b = Suc b'"
      by (cases a; cases b) auto
    define x where "x = M * int a'"
    have x0: "0 \<le> x" using pos by (simp add: x_def)
    have d: "?H ! a' ! b' \<le> x"
      unfolding x_def M_def using less.prems by (intro less.hyps) (simp_all add: a b)
    have u: "?H ! a' ! Suc b' \<le> x"
      unfolding x_def M_def using less.prems by (intro less.hyps) (simp_all add: a b)
    have l: "?H ! Suc a' ! b' \<le> M * int (Suc a')"
      unfolding M_def using less.prems by (intro less.hyps) (simp_all add: a b)
    have step: "M * int (Suc a') = x + M"
      by (simp add: x_def distrib_left)
    have s: "ScoringMatrix_score sc (s1 ! a') (s2 ! b') \<le> M"
      unfolding M_def using ok by (rule score_le_match)
    have H: "?H ! Suc a' ! Suc b' =
        max 0 (max (?H ! a' ! b' + ScoringMatrix_score sc (s1 ! a') (s2 ! b'))
                 (max (?H ! a' ! Suc b' + gap_penalty sc) (?H ! Suc a' ! b' + gap_penalty sc)))"
      using sw_fill_H [of "Suc a'" s1 "Suc b'" s2 sc] less.prems by (simp add: a b)
    have "?H ! Suc a' ! Suc b' \<le> x + M"
      unfolding H using d u l s gap pos x0 unfolding step by simp
    then show ?thesis
      unfolding a b M_def [symmetric] step .
  qed
qed

lemma sw_fill_max_upper:
  assumes "scoring_ok sc"
  shows "max_score (sw_fill sc s1 s2) \<le> match_score sc * int (length s1)"
proof -
  let ?st = "sw_fill sc s1 s2"
  have inv: "sw_inv sc s1 s2 (Suc (length s1)) 0 ?st" by (rule sw_fill_inv)
  then have p: "max_i ?st \<le> length s1" "max_j ?st \<le> length s2"
    and e: "H_matrix ?st ! max_i ?st ! max_j ?st = max_score ?st"
    by (simp_all add: sw_inv_def)
  have "max_score ?st \<le> match_score sc * int (max_i ?st)"
    using sw_fill_upper [OF assms p] e by simp
  also have "\<dots> \<le> match_score sc * int (length s1)"
    using assms p by (simp add: scoring_ok_def mult_left_mono)
  finally show ?thesis .
qed

lemma sw_fill_diag_lower:
  "a \<le> length s \<Longrightarrow> match_score sc * int a \<le> H_matrix (sw_fill sc s s) ! a ! a"
proof (induction a)
  case 0
  have "H_matrix (sw_fill sc s s) ! 0 ! 0 = 0" by (intro sw_fill_border) simp_all
  then show ?case by simp
next
  case (Suc a)
  let ?H = "H_matrix (sw_fill sc s s)"
  have ih: "match_score sc * int a \<le> ?H ! a ! a" using Suc by simp
  have "?H ! Suc a ! Suc a \<ge> ?H ! (Suc a - 1) ! (Suc a - 1) +
      ScoringMatrix_score sc (s ! (Suc a - 1)) (s ! (Suc a - 1))"
    using Suc.prems by (subst (2) sw_fill_H) simp_all
  then show ?case
    using ih by (simp add: ScoringMatrix_score_def algebra_simps)
qed

lemma sw_fill_max_self:
  "match_score sc * int (length s) \<le> max_score (sw_fill sc s s)"
proof -
  let ?st = "sw_fill sc s s"
  have inv: "sw_inv sc s s (Suc (length s)) 0 ?st" by (rule sw_fill_inv)
  then have "H_matrix ?st ! length s ! length s \<le> max_score ?st"
    by (simp add: sw_inv_def)
  then show ?thesis
    using sw_fill_diag_lower [of "length s" s sc] by simp
qed



subsection \<open>The best of several targets\<close>

lemma max_by_key_snoc:
  "max_by_key f b (xs @ [x]) =
     (if f x > f (max_by_key f b xs) then x else max_by_key f b xs)"
  by (induction xs arbitrary: b) simp_all

lemma max_by_key_first_max:
  "\<exists>i < length (b # xs). max_by_key f b xs = (b # xs) ! i \<and>
      (\<forall>j < length (b # xs). f ((b # xs) ! j) \<le> f ((b # xs) ! i)) \<and>
      (\<forall>j < i. f ((b # xs) ! j) < f ((b # xs) ! i))"
proof (induction xs rule: rev_induct)
  case Nil
  show ?case by simp
next
  case (snoc x xs)
  define l where "l = b # xs"
  have l': "b # xs @ [x] = l @ [x]" by (simp add: l_def)
  from snoc obtain i where i: "i < length l" and r: "max_by_key f b xs = l ! i"
    and le: "\<forall>j < length l. f (l ! j) \<le> f (l ! i)"
    and lt: "\<forall>j < i. f (l ! j) < f (l ! i)"
    unfolding l_def by blast
  have old: "\<And>j. j < length l \<Longrightarrow> (l @ [x]) ! j = l ! j" by (simp add: nth_append)
  have new: "(l @ [x]) ! length l = x" by simp
  have len: "\<And>j. j < length (l @ [x]) \<longleftrightarrow> j < length l \<or> j = length l" by auto
  have m: "max_by_key f b (xs @ [x]) = (if f x > f (l ! i) then x else l ! i)"
    by (simp add: max_by_key_snoc r)
  show ?case
    unfolding l' m
  proof (cases "f x > f (l ! i)")
    case True
    have "\<forall>j < length (l @ [x]). f ((l @ [x]) ! j) \<le> f ((l @ [x]) ! length l)"
      unfolding len new using le True by (auto simp: old)
    moreover have "\<forall>j < length l. f ((l @ [x]) ! j) < f ((l @ [x]) ! length l)"
      unfolding new using le True by (auto simp: old)
    ultimately show "\<exists>k < length (l @ [x]).
       (if f x > f (l ! i) then x else l ! i) = (l @ [x]) ! k \<and>
       (\<forall>j < length (l @ [x]). f ((l @ [x]) ! j) \<le> f ((l @ [x]) ! k)) \<and>
       (\<forall>j < k. f ((l @ [x]) ! j) < f ((l @ [x]) ! k))"
      using True by (intro exI [of _ "length l"]) (simp add: new)
  next
    case False
    have "\<forall>j < length (l @ [x]). f ((l @ [x]) ! j) \<le> f ((l @ [x]) ! i)"
      unfolding len using le False i by (auto simp: old)
    moreover have "\<forall>j < i. f ((l @ [x]) ! j) < f ((l @ [x]) ! i)"
      using lt i by (auto simp: old)
    ultimately show "\<exists>k < length (l @ [x]).
       (if f x > f (l ! i) then x else l ! i) = (l @ [x]) ! k \<and>
       (\<forall>j < length (l @ [x]). f ((l @ [x]) ! j) \<le> f ((l @ [x]) ! k)) \<and>
       (\<forall>j < k. f ((l @ [x]) ! j) < f ((l @ [x]) ! k))"
      using False i by (intro exI [of _ i]) (simp add: old)
  qed
qed

lemma smith_waterman_scoring:
  "smith_waterman q t (Some (scoring_or_default scoring)) = smith_waterman q t scoring"
  by (simp add: smith_waterman_def scoring_or_default_def split: option.splits)

lemma align_loop_results:
  assumes q: "bases query \<noteq> []"
  shows "\<forall>t \<in> set ts. bases t \<noteq> [] \<Longrightarrow>
     align_loop query sc (enumerate k ts) acc =
       Inr (acc @ map (\<lambda>it. (fst it, projr (smith_waterman query (snd it) (Some sc))))
                    (enumerate k ts))"
proof (induction ts arbitrary: k acc)
  case Nil
  show ?case by simp
next
  case (Cons t ts)
  obtain a where a: "smith_waterman query t (Some sc) = Inr a"
    using smith_waterman_result [OF q, of t "Some sc"] Cons.prems by auto
  show ?case
    using Cons.IH [of "Suc k" "acc @ [(k, a)]"] Cons.prems by (simp add: a)
qed


text \<open>
  Claim C9. For a non-empty query and a non-empty list of non-empty targets,
  \<^verbatim>\<open>find_best_alignment\<close> returns an index \<open>i\<close> together with the local alignment of the query
  against target \<open>i\<close>; no target scores higher, and every earlier target scores strictly
  lower. With a scoring the constructor accepts, a first target with the bases of the query
  gives index \<open>0\<close>: aligning the query with itself reaches \<open>match * len(query)\<close>, and no cell
  of any fill for that query exceeds it.
\<close>

theorem find_best_alignment_first_max:
  assumes q: "bases query \<noteq> []" and ne: "targets \<noteq> []"
    and ts: "\<forall>t \<in> set targets. bases t \<noteq> []"
  shows "\<exists>i a. find_best_alignment query targets scoring = Inr (Some (i, a)) \<and>
     i < length targets \<and>
     smith_waterman query (targets ! i) scoring = Inr a \<and>
     (\<forall>j < length targets. \<forall>b. smith_waterman query (targets ! j) scoring = Inr b \<longrightarrow>
         score b \<le> score a \<and> (j < i \<longrightarrow> score b < score a)) \<and>
     (scoring_ok (scoring_or_default scoring) \<and> bases (targets ! 0) = bases query \<longrightarrow> i = 0)"
proof -
  define sc where "sc = scoring_or_default scoring"
  define A where "A = (\<lambda>t. projr (smith_waterman query t (Some sc)))"
  define res where "res = map (\<lambda>it. (fst it, A (snd it))) (enumerate 0 targets)"
  have swA: "smith_waterman query t scoring = Inr (A t) \<and>
      score (A t) = max_score (sw_fill sc (bases query) (bases t))" if "bases t \<noteq> []" for t
  proof -
    from smith_waterman_result [OF q that, of scoring]
    obtain a where a: "smith_waterman query t scoring = Inr a"
      and s: "score a = max_score (sw_fill sc (bases query) (bases t))"
      unfolding sc_def by blast
    have "A t = a"
      unfolding A_def sc_def smith_waterman_scoring a by simp
    then show ?thesis using a s by simp
  qed
  have nt: "\<And>j. j < length targets \<Longrightarrow> bases (targets ! j) \<noteq> []"
    using ts by simp
  have loop: "align_loop query sc (enumerate 0 targets) [] = Inr res"
    unfolding res_def A_def using align_loop_results [OF q ts, of sc 0 "[]"] by simp
  have aam: "align_against_multiple query targets scoring = Inr res"
    using ne loop by (simp add: align_against_multiple_def sc_def)
  have len: "length res = length targets" by (simp add: res_def)
  have nth: "\<And>j. j < length targets \<Longrightarrow> res ! j = (j, A (targets ! j))"
    by (simp add: res_def nth_enumerate_eq)
  obtain r rs where rr: "res = r # rs"
    using ne len by (cases res) auto
  from max_by_key_first_max [of r rs "\<lambda>x. score (snd x)"]
  obtain i where i: "i < length targets"
    and best: "max_by_key (\<lambda>x. score (snd x)) r rs = res ! i"
    and le: "\<forall>j < length targets. score (snd (res ! j)) \<le> score (snd (res ! i))"
    and lt: "\<forall>j < i. score (snd (res ! j)) < score (snd (res ! i))"
    unfolding rr [symmetric] len by blast
  have le': "\<And>j. j < length targets \<Longrightarrow> score (A (targets ! j)) \<le> score (A (targets ! i))"
    using le i by (simp add: nth)
  have lt': "\<And>j. j < i \<Longrightarrow> score (A (targets ! j)) < score (A (targets ! i))"
    using lt i by (simp add: nth)
  have fb: "find_best_alignment query targets scoring = Inr (Some (i, A (targets ! i)))"
    using best i by (simp add: find_best_alignment_def aam rr [symmetric] nth) (simp add: rr)
  have sw_i: "smith_waterman query (targets ! i) scoring = Inr (A (targets ! i))"
    using swA [OF nt [OF i]] by simp
  have cmp: "\<forall>j < length targets. \<forall>b. smith_waterman query (targets ! j) scoring = Inr b \<longrightarrow>
         score b \<le> score (A (targets ! i)) \<and> (j < i \<longrightarrow> score b < score (A (targets ! i)))"
  proof (intro allI impI)
    fix j b assume j: "j < length targets"
      and b: "smith_waterman query (targets ! j) scoring = Inr b"
    have "b = A (targets ! j)" using swA [OF nt [OF j]] b by simp
    then show "score b \<le> score (A (targets ! i)) \<and> (j < i \<longrightarrow> score b < score (A (targets ! i)))"
      using le' [OF j] lt' by simp
  qed
  have first: "i = 0"
    if ok: "scoring_ok (scoring_or_default scoring)" and same: "bases (targets ! 0) = bases query"
  proof (rule ccontr)
    assume "i \<noteq> 0"
    then have pos: "0 < i" by simp
    have z: "0 < length targets" using ne by simp
    have "match_score sc * int (length (bases query)) \<le> score (A (targets ! 0))"
      using swA [OF nt [OF z]] sw_fill_max_self [of sc "bases query"] by (simp add: same)
    moreover have "score (A (targets ! i)) \<le> match_score sc * int (length (bases query))"
      using swA [OF nt [OF i]] sw_fill_max_upper [of sc "bases query" "bases (targets ! i)"] ok
      by (simp add: sc_def)
    ultimately show False using lt' [OF pos] by simp
  qed
  show ?thesis
    using fb i sw_i cmp first by blast
qed

theorem find_best_alignment_first_max_witness:
  "find_best_alignment
     \<lparr>bases = ''ATCG'', seq_id = None, description = None, seq_type = DNA, validated = True\<rparr>
     [\<lparr>bases = ''ATCG'', seq_id = None, description = None, seq_type = DNA, validated = True\<rparr>,
      \<lparr>bases = ''GCTA'', seq_id = None, description = None, seq_type = DNA, validated = True\<rparr>,
      \<lparr>bases = ''AAAA'', seq_id = None, description = None, seq_type = DNA, validated = True\<rparr>]
     None =
   Inr (Some (0, \<lparr>aligned_seq1 = ''ATCG'', aligned_seq2 = ''ATCG'', score = 8, start1 = 0,
                   end1 = 4, start2 = 0, end2 = 4, alignment_type = LOCAL\<rparr>))"
proof -
  have ok: "scoring_ok (scoring_or_default None)"
    by (simp add: scoring_ok_def scoring_or_default_def default_dna_def)
  have sw: "smith_waterman
     \<lparr>bases = ''ATCG'', seq_id = None, description = None, seq_type = DNA, validated = True\<rparr>
     \<lparr>bases = ''ATCG'', seq_id = None, description = None, seq_type = DNA, validated = True\<rparr>
     None =
     Inr \<lparr>aligned_seq1 = ''ATCG'', aligned_seq2 = ''ATCG'', score = 8, start1 = 0,
          end1 = 4, start2 = 0, end2 = 4, alignment_type = LOCAL\<rparr>"
    by code_simp
  show ?thesis
    using find_best_alignment_first_max [of
     "\<lparr>bases = ''ATCG'', seq_id = None, description = None, seq_type = DNA, validated = True\<rparr>"
     "[\<lparr>bases = ''ATCG'', seq_id = None, description = None, seq_type = DNA, validated = True\<rparr>,
      \<lparr>bases = ''GCTA'', seq_id = None, description = None, seq_type = DNA, validated = True\<rparr>,
      \<lparr>bases = ''AAAA'', seq_id = None, description = None, seq_type = DNA, validated = True\<rparr>]"
     None] ok sw
    by auto
qed

end
